theory Spec2Isabelle
  imports Main "HOL-Library.Word" "HOL-Library.Multiset"
begin

section \<open>Query diff of dolt: the sort-node differ and the query differ\<close>

text \<open>
  The development embeds \<^verbatim>\<open>go/libraries/doltcore/diff/querydiff/sort_node.go\<close> and the
  query differ (\<^verbatim>\<open>QueryDiffer\<close>, \<^verbatim>\<open>recursiveValidateQueryPlan\<close>) of package querydiff.
  Go's multiple return values are pairs, a nil interface or slice is \<open>None\<close>, a panic is the
  result \<open>Panic\<close> carrying the message, and a method with a pointer receiver takes the
  receiver's state and returns it updated.
\<close>

subsection \<open>Values of the engine\<close>

text \<open>
  An \<^verbatim>\<open>error\<close> of Go. The code compares errors with \<^verbatim>\<open>io.EOF\<close> and \<^verbatim>\<open>errSkip\<close> by
  identity; every other error is a \<open>Failure\<close> with its message.
\<close>

datatype error = io_EOF | errSkip | Failure string

text \<open>A call of Go either returns its values or panics.\<close>

datatype 'a result = Return 'a | Panic string

text \<open>
  \<^verbatim>\<open>sql.Row\<close> is \<^verbatim>\<open>[]interface{}\<close>: a nil row is \<open>None\<close>, a null value in a row is
  \<open>None\<close> too, and \<open>'v\<close> is the type of the non-null values.
\<close>

type_synonym 'v sql_Row = "'v option list option"

datatype SortOrder = Ascending | Descending

datatype NullOrdering = NullsFirst | NullsLast

text \<open>
  \<^verbatim>\<open>plan.SortField\<close> of the engine. The column is an \<^verbatim>\<open>sql.Expression\<close>: \<open>Column_Eval\<close> is
  its \<^verbatim>\<open>Eval(ctx, row)\<close> and \<open>Column_Type_Compare\<close> is \<^verbatim>\<open>Column.Type().Compare(a, b)\<close>, an
  \<^verbatim>\<open>int\<close> of Go or an error. Both belong to the engine and are parameters here.
\<close>

record 'v SortField =
  Column_Eval :: "'v option list \<Rightarrow> error + 'v option"
  Column_Type_Compare :: "'v \<Rightarrow> 'v \<Rightarrow> error + int"
  Order :: SortOrder
  NullOrdering :: NullOrdering

subsection \<open>rowCmp\<close>

text \<open>
  \<^verbatim>\<open>type rowCmp int32\<close> with its four constants; \<^verbatim>\<open>unknown\<close> is \<^verbatim>\<open>math.MaxInt32\<close>.
  The conversion \<^verbatim>\<open>rowCmp(cmp)\<close> of an \<^verbatim>\<open>int\<close> keeps the low 32 bits.
\<close>

type_synonym rowCmp = "32 word"

definition lesser :: rowCmp where
  "lesser = - 1"

definition equal_cmp :: rowCmp where
  "equal_cmp = 0"

definition greater_cmp :: rowCmp where
  "greater_cmp = 1"

definition unknown :: rowCmp where
  "unknown = 2147483647"

definition rowCmp_of_int :: "int \<Rightarrow> rowCmp" where
  "rowCmp_of_int cmp = word_of_int cmp"

lemmas rowCmp_defs = lesser_def equal_cmp_def greater_cmp_def unknown_def

subsection \<open>rowCompare\<close>

text \<open>
  The loop of \<^verbatim>\<open>rowCompare\<close> over \<^verbatim>\<open>nd.fromChild.SortFields\<close>, on two rows that are
  not nil. It returns the pair \<^verbatim>\<open>(rowCmp, error)\<close> of the source.
\<close>

fun rowCompare_fields ::
  "'v SortField list \<Rightarrow> 'v option list \<Rightarrow> 'v option list \<Rightarrow> rowCmp \<times> error option" where
  "rowCompare_fields [] left right = (0, None)"
| "rowCompare_fields (sf # sfs) left right =
     (case Column_Eval sf left of
        Inl err \<Rightarrow> (unknown, Some err)
      | Inr lv0 \<Rightarrow>
          (case Column_Eval sf right of
             Inl err \<Rightarrow> (unknown, Some err)
           | Inr rv0 \<Rightarrow>
               (let lv = (if Order sf = Descending then rv0 else lv0);
                    rv = (if Order sf = Descending then lv0 else rv0)
                in case lv of
                     None \<Rightarrow>
                       (case rv of
                          None \<Rightarrow> rowCompare_fields sfs left right
                        | Some b \<Rightarrow>
                            if NullOrdering sf = NullsFirst then (lesser, None)
                            else (greater_cmp, None))
                   | Some a \<Rightarrow>
                       (case rv of
                          None \<Rightarrow>
                            if NullOrdering sf = NullsFirst then (greater_cmp, None)
                            else (lesser, None)
                        | Some b \<Rightarrow>
                            (case Column_Type_Compare sf a b of
                               Inl err \<Rightarrow> (0, Some err)
                             | Inr cmp \<Rightarrow>
                                 if cmp \<noteq> 0 then (rowCmp_of_int cmp, None)
                                 else rowCompare_fields sfs left right)))))"

definition rowCompare ::
  "'v SortField list \<Rightarrow> 'v sql_Row \<Rightarrow> 'v sql_Row \<Rightarrow> (rowCmp \<times> error option) result" where
  "rowCompare SortFields left right =
     (case left of
        None \<Rightarrow> Panic ''nil rows cannot be compared''
      | Some l \<Rightarrow>
          (case right of
             None \<Rightarrow> Panic ''nil rows cannot be compared''
           | Some r \<Rightarrow> Return (rowCompare_fields SortFields l r)))"

subsection \<open>The lookahead queue\<close>

text \<open>
  Modelled from the spec: the type \<^verbatim>\<open>iterQueue\<close>, which \<^verbatim>\<open>sort_node.go\<close> uses and does
  not define, absent from the sources. The queue wraps one finite row iterator. The background fetch is
  abstracted: \<open>unconsumed\<close> holds the rows that have not been consumed yet, buffered or
  still to be fetched, in the order of the iterator, so that \<open>peek\<close> and \<open>pop\<close> are the
  calls that have caught up with the fetch. \<open>isDone\<close> holds once no row is left and the
  source has ended. \<open>peek\<close> and \<open>pop\<close> are valid only on a queue that is not done; on a
  done queue the model yields the nil row and leaves the queue as it is.
\<close>

record 'v iterQueue =
  unconsumed :: "'v sql_Row list"
  isStarted :: bool
  isClosed :: bool

text \<open>
  Modelled from the spec: \<^verbatim>\<open>newIterQueue\<close>, absent from the sources; a new queue has
  not started and is not closed.
\<close>

definition newIterQueue :: "'v sql_Row list \<Rightarrow> 'v iterQueue" where
  "newIterQueue rows = \<lparr>unconsumed = rows, isStarted = False, isClosed = False\<rparr>"

text \<open>
  Modelled from the spec: \<^verbatim>\<open>iterQueue.maybeStart\<close>, absent from the sources; it is
  idempotent, and its first call starts the fetch.
\<close>

definition maybeStart :: "'v iterQueue \<Rightarrow> 'v iterQueue" where
  "maybeStart q = (if isStarted q then q else q\<lparr>isStarted := True\<rparr>)"

text \<open>
  Modelled from the spec: \<^verbatim>\<open>iterQueue.isDone\<close>, absent from the sources; true only
  once the buffer is empty and the source has signalled the end of the stream.
\<close>

definition isDone :: "'v iterQueue \<Rightarrow> bool" where
  "isDone q = (unconsumed q = [])"

text \<open>
  Modelled from the spec: \<^verbatim>\<open>iterQueue.peek\<close>, absent from the sources; the next
  unconsumed row, which stays in the queue.
\<close>

definition peek :: "'v iterQueue \<Rightarrow> 'v sql_Row" where
  "peek q = (case unconsumed q of [] \<Rightarrow> None | r # rs \<Rightarrow> r)"

text \<open>
  Modelled from the spec: \<^verbatim>\<open>iterQueue.pop\<close>, absent from the sources; it removes and
  returns the next unconsumed row.
\<close>

definition pop :: "'v iterQueue \<Rightarrow> 'v sql_Row \<times> 'v iterQueue" where
  "pop q = (case unconsumed q of [] \<Rightarrow> (None, q) | r # rs \<Rightarrow> (r, q\<lparr>unconsumed := rs\<rparr>))"

text \<open>
  Modelled from the spec: \<^verbatim>\<open>iterQueue.close\<close>, absent from the sources; it stops the
  fetch and releases the iterator, and a second close finds the queue closed and does
  nothing. The differ ignores what it returns.
\<close>

definition close_queue :: "'v iterQueue \<Rightarrow> 'v iterQueue" where
  "close_queue q = (if isClosed q then q else q\<lparr>isClosed := True\<rparr>)"

subsection \<open>sortNodeDiffer\<close>

text \<open>
  \<^verbatim>\<open>plan.Sort\<close> of the engine, as far as the differ reads it: its sort fields. The rows
  of its iterator are what the lookahead queue of its side holds.
\<close>

record 'v plan_Sort =
  SortFields :: "'v SortField list"

text \<open>
  The struct \<^verbatim>\<open>sortNodeDiffer\<close>; \<open>ae\<close> is the content of the shared
  \<^verbatim>\<open>atomicerr.AtomicError\<close>, \<open>None\<close> while no error has been recorded. The field
  \<^verbatim>\<open>ctx\<close> is only handed to the engine's \<^verbatim>\<open>Eval\<close> and is left out.
\<close>

record 'v sortNodeDiffer =
  fromChild :: "'v plan_Sort"
  toChild :: "'v plan_Sort"
  fromIter :: "'v iterQueue"
  toIter :: "'v iterQueue"
  lastCmp :: rowCmp
  ae :: "error option"

text \<open>
  \<^verbatim>\<open>newSortNodeDiffer\<close>, given the rows that the iterators of the two sort nodes yield
  (both \<^verbatim>\<open>RowIter\<close> calls having succeeded).
\<close>

definition newSortNodeDiffer ::
  "'v plan_Sort \<Rightarrow> 'v plan_Sort \<Rightarrow> 'v sql_Row list \<Rightarrow> 'v sql_Row list \<Rightarrow> 'v sortNodeDiffer" where
  "newSortNodeDiffer from to fromRows toRows =
     \<lparr>fromChild = from, toChild = to,
      fromIter = newIterQueue fromRows, toIter = newIterQueue toRows,
      lastCmp = unknown, ae = None\<rparr>"

text \<open>The first two statements of both pulls: \<^verbatim>\<open>maybeStart\<close> on both queues.\<close>

definition startBoth :: "'v sortNodeDiffer \<Rightarrow> 'v sortNodeDiffer" where
  "startBoth nd = nd\<lparr>fromIter := maybeStart (fromIter nd), toIter := maybeStart (toIter nd)\<rparr>"

text \<open>The statements \<^verbatim>\<open>return nd.fromIter.pop(), nil\<close> and \<^verbatim>\<open>return nd.toIter.pop(), nil\<close>.\<close>

definition popFrom :: "'v sortNodeDiffer \<Rightarrow> ('v sql_Row \<times> error option) result \<times> 'v sortNodeDiffer" where
  "popFrom nd = (case pop (fromIter nd) of (r, q) \<Rightarrow> (Return (r, None), nd\<lparr>fromIter := q\<rparr>))"

definition popTo :: "'v sortNodeDiffer \<Rightarrow> ('v sql_Row \<times> error option) result \<times> 'v sortNodeDiffer" where
  "popTo nd = (case pop (toIter nd) of (r, q) \<Rightarrow> (Return (r, None), nd\<lparr>toIter := q\<rparr>))"

definition nextFromRow ::
  "'v sortNodeDiffer \<Rightarrow> ('v sql_Row \<times> error option) result \<times> 'v sortNodeDiffer" where
  "nextFromRow nd0 =
     (let nd = startBoth nd0 in
      if isDone (fromIter nd) then (Return (None, Some io_EOF), nd)
      else if isDone (toIter nd) then popFrom nd
      else if lastCmp nd \<noteq> unknown then (Panic ''query diff iterators called out of order'', nd)
      else
        (case rowCompare (SortFields (fromChild nd)) (peek (fromIter nd)) (peek (toIter nd)) of
           Panic msg \<Rightarrow> (Panic msg, nd)
         | Return (c, err) \<Rightarrow>
             (let nd1 = nd\<lparr>lastCmp := c\<rparr> in
              if err \<noteq> None then (Return (None, err), nd1)
              else if c = lesser then popFrom nd1
              else if c = equal_cmp then popFrom nd1
              else if c = greater_cmp then (Return (None, Some errSkip), nd1)
              else (Panic ''incorrect value fromIter rowCmp'', nd1))))"

definition nextToRow ::
  "'v sortNodeDiffer \<Rightarrow> ('v sql_Row \<times> error option) result \<times> 'v sortNodeDiffer" where
  "nextToRow nd0 =
     (let nd = startBoth nd0 in
      if isDone (toIter nd) then (Return (None, Some io_EOF), nd)
      else if isDone (fromIter nd) \<and> lastCmp nd = unknown then popTo nd
      else if lastCmp nd = unknown then (Panic ''query diff iterators called out of order'', nd)
      else
        (let cmp = lastCmp nd; nd1 = nd\<lparr>lastCmp := unknown\<rparr> in
         if cmp = lesser then (Return (None, Some errSkip), nd1)
         else if cmp = equal_cmp then popTo nd1
         else if cmp = greater_cmp then popTo nd1
         else (Panic ''incorrect value fromIter rowCmp'', nd1)))"

text \<open>\<^verbatim>\<open>sortNodeDiffer.close\<close>: both queues are closed and the shared error is returned.\<close>

definition sortNodeDiffer_close :: "'v sortNodeDiffer \<Rightarrow> error option \<times> 'v sortNodeDiffer" where
  "sortNodeDiffer_close nd =
     (let nd1 = nd\<lparr>fromIter := close_queue (fromIter nd)\<rparr>;
          nd2 = nd1\<lparr>toIter := close_queue (toIter nd1)\<rparr>
      in (ae nd2, nd2))"

subsection \<open>The synthetic nodes\<close>

text \<open>
  \<^verbatim>\<open>sql.RowIter\<close>, the interface of \<^verbatim>\<open>Next\<close> and \<^verbatim>\<open>Close\<close>, over a state \<open>'s\<close> that the
  iterator's calls read and update. A \<^verbatim>\<open>rowIterWrapper\<close> is such an iterator: its two
  closures capture the pointer \<^verbatim>\<open>nd\<close>, so its state is the \<^verbatim>\<open>sortNodeDiffer\<close>, shared by
  the from-node and the to-node.
\<close>

record ('s, 'v) sql_RowIter =
  Next :: "'s \<Rightarrow> ('v sql_Row \<times> error option) result \<times> 's"
  Close :: "'s \<Rightarrow> error option \<times> 's"

record ('s, 'v) sqlNodeWrapper =
  Node :: "'v plan_Sort"
  iter :: "('s, 'v) sql_RowIter"

definition makeFromNode :: "'v sortNodeDiffer \<Rightarrow> ('v sortNodeDiffer, 'v) sqlNodeWrapper" where
  "makeFromNode nd =
     \<lparr>Node = fromChild nd,
      iter = \<lparr>Next = nextFromRow, Close = (\<lambda>s. (None, s))\<rparr>\<rparr>"

definition makeToNode :: "'v sortNodeDiffer \<Rightarrow> ('v sortNodeDiffer, 'v) sqlNodeWrapper" where
  "makeToNode nd =
     \<lparr>Node = toChild nd,
      iter = \<lparr>Next = nextToRow, Close = sortNodeDiffer_close\<rparr>\<rparr>"

subsection \<open>QueryDiffer\<close>

text \<open>
  The struct \<^verbatim>\<open>QueryDiffer\<close>. Its fields \<^verbatim>\<open>fromIter\<close> and \<^verbatim>\<open>toIter\<close> are \<open>qd_fromIter\<close>
  and \<open>qd_toIter\<close> here, apart from the queues of the same names in \<^verbatim>\<open>sortNodeDiffer\<close>.
  The schema is used in \<^verbatim>\<open>from.Equals(to, qd.sch)\<close> only, a method of the engine, and
  \<open>sch\<close> is that equality of rows: an error or a truth value.
\<close>

record ('s, 'v) QueryDiffer =
  sch :: "'v sql_Row \<Rightarrow> 'v sql_Row \<Rightarrow> error + bool"
  qd_fromIter :: "('s, 'v) sql_RowIter"
  qd_toIter :: "('s, 'v) sql_RowIter"

text \<open>
  The loop of \<^verbatim>\<open>NextDiff\<close>. \<^verbatim>\<open>fromEOF\<close> is declared before the loop and is never
  reset, so it is an argument of the loop. \<open>None\<close> is a loop that does not end.
\<close>

partial_function (option) NextDiff_loop ::
  "('s, 'v) QueryDiffer \<Rightarrow> bool \<Rightarrow> 's \<Rightarrow>
     (('v sql_Row \<times> 'v sql_Row \<times> error option) result \<times> 's) option" where
  "NextDiff_loop qd fromEOF0 s =
     (case Next (qd_fromIter qd) s of
        (Panic msg, s1) \<Rightarrow> Some (Panic msg, s1)
      | (Return (from, err), s1) \<Rightarrow>
          if err \<noteq> Some io_EOF \<and> err \<noteq> None \<and> err \<noteq> Some errSkip
          then Some (Return (None, None, err), s1)
          else
            (let fromEOF = (if err = Some io_EOF then True else fromEOF0) in
             case Next (qd_toIter qd) s1 of
               (Panic msg, s2) \<Rightarrow> Some (Panic msg, s2)
             | (Return (to, err), s2) \<Rightarrow>
                 if err \<noteq> None \<and> err \<noteq> Some errSkip \<and> err \<noteq> Some io_EOF
                 then Some (Return (None, None, err), s2)
                 else if fromEOF \<and> err = Some io_EOF
                 then Some (Return (None, None, Some io_EOF), s2)
                 else
                   (case sch qd from to of
                      Inl err \<Rightarrow> Some (Return (None, None, Some err), s2)
                    | Inr eq \<Rightarrow>
                        if eq then NextDiff_loop qd fromEOF s2
                        else Some (Return (from, to, None), s2))))"

definition NextDiff ::
  "('s, 'v) QueryDiffer \<Rightarrow> 's \<Rightarrow>
     (('v sql_Row \<times> 'v sql_Row \<times> error option) result \<times> 's) option" where
  "NextDiff qd s = NextDiff_loop qd False s"

text \<open>
  \<open>n\<close> calls of \<^verbatim>\<open>NextDiff\<close> in a row, with their outcomes in the order of the calls.
\<close>

fun NextDiff_times ::
  "nat \<Rightarrow> ('s, 'v) QueryDiffer \<Rightarrow> 's \<Rightarrow>
     (('v sql_Row \<times> 'v sql_Row \<times> error option) result list \<times> 's) option" where
  "NextDiff_times 0 qd s = Some ([], s)"
| "NextDiff_times (Suc n) qd s =
     (case NextDiff qd s of
        None \<Rightarrow> None
      | Some (out, s1) \<Rightarrow>
          (case NextDiff_times n qd s1 of
             None \<Rightarrow> None
           | Some (outs, s2) \<Rightarrow> Some (out # outs, s2)))"

definition QueryDiffer_Close :: "('s, 'v) QueryDiffer \<Rightarrow> 's \<Rightarrow> error option \<times> 's" where
  "QueryDiffer_Close qd s =
     (case Close (qd_fromIter qd) s of
        (fromErr, s1) \<Rightarrow>
          (case Close (qd_toIter qd) s1 of
             (toErr, s2) \<Rightarrow> (if fromErr \<noteq> None then fromErr else toErr, s2)))"

text \<open>
  The \<^verbatim>\<open>QueryDiffer\<close> that \<^verbatim>\<open>MakeQueryDiffer\<close> builds when the sort node is the root of
  both plans: its iterators are those of the two synthetic nodes.
\<close>

definition sortQueryDiffer ::
  "('v sql_Row \<Rightarrow> 'v sql_Row \<Rightarrow> error + bool) \<Rightarrow> 'v sortNodeDiffer \<Rightarrow>
     ('v sortNodeDiffer, 'v) QueryDiffer" where
  "sortQueryDiffer eq nd =
     \<lparr>sch = eq, qd_fromIter = iter (makeFromNode nd), qd_toIter = iter (makeToNode nd)\<rparr>"

subsection \<open>Validation of the query plan\<close>

text \<open>
  A plan node \<^verbatim>\<open>sql.Node\<close>, as far as \<^verbatim>\<open>recursiveValidateQueryPlan\<close> looks at it: a
  \<^verbatim>\<open>*plan.Sort\<close> with its child, or a node of another type with the result of its
  \<^verbatim>\<open>Children()\<close>, which is nil (\<open>None\<close>) or a slice of nodes.
\<close>

datatype sql_Node = Sort sql_Node | Other "sql_Node list option"

text \<open>
  \<^verbatim>\<open>recursiveValidateQueryPlan\<close>: \<open>Return None\<close> is the nil error. The source tests
  \<^verbatim>\<open>cc == nil\<close> and then reads \<^verbatim>\<open>cc[0]\<close>, which panics on an empty slice that is not nil.
\<close>

fun recursiveValidateQueryPlan :: "sql_Node \<Rightarrow> error option result" where
  "recursiveValidateQueryPlan (Sort child) = Return None"
| "recursiveValidateQueryPlan (Other None) =
     Return (Some (Failure ''query plan does not contain a sort node''))"
| "recursiveValidateQueryPlan (Other (Some [])) = Panic ''index out of range [0] with length 0''"
| "recursiveValidateQueryPlan (Other (Some (c # cc))) = recursiveValidateQueryPlan c"

text \<open>
  The first-child chain of a plan: the nodes that the walk of the validation can visit,
  from the root down, each the first child of the one before.
\<close>

fun first_child_chain :: "sql_Node \<Rightarrow> sql_Node list" where
  "first_child_chain (Sort child) = Sort child # first_child_chain child"
| "first_child_chain (Other None) = [Other None]"
| "first_child_chain (Other (Some [])) = [Other (Some [])]"
| "first_child_chain (Other (Some (c # cc))) = Other (Some (c # cc)) # first_child_chain c"

text \<open>
  The chain in the words of the specification: the walk goes on through a node only
  when that node has a single child.
\<close>

fun spec_single_child_chain :: "sql_Node \<Rightarrow> sql_Node list" where
  "spec_single_child_chain (Sort child) = Sort child # spec_single_child_chain child"
| "spec_single_child_chain (Other (Some [c])) = Other (Some [c]) # spec_single_child_chain c"
| "spec_single_child_chain (Other cc) = [Other cc]"

definition is_Sort :: "sql_Node \<Rightarrow> bool" where
  "is_Sort p = (case p of Sort child \<Rightarrow> True | Other cc \<Rightarrow> False)"

subsection \<open>The order of the sort key\<close>

text \<open>
  Two rows tie on a sort field when the step of \<^verbatim>\<open>rowCompare\<close> for that field goes on to
  the next field: both values are null, or the comparator, called on the operands in the
  order of the field's direction, returns 0.
\<close>

definition ties :: "'v SortField \<Rightarrow> 'v option list \<Rightarrow> 'v option list \<Rightarrow> bool" where
  "ties sf left right =
     (case (Column_Eval sf left, Column_Eval sf right) of
        (Inr None, Inr None) \<Rightarrow> True
      | (Inr (Some a), Inr (Some b)) \<Rightarrow>
          (if Order sf = Descending then Column_Type_Compare sf b a
           else Column_Type_Compare sf a b) = Inr 0
      | _ \<Rightarrow> False)"

text \<open>
  \<open>key_le\<close>: the comparison of the two rows succeeds and does not say \<^verbatim>\<open>greater\<close>. It is
  the order of the effective comparison key.
\<close>

definition key_le :: "'v SortField list \<Rightarrow> 'v sql_Row \<Rightarrow> 'v sql_Row \<Rightarrow> bool" where
  "key_le sfs a b =
     (rowCompare sfs a b = Return (lesser, None) \<or> rowCompare sfs a b = Return (equal_cmp, None))"

text \<open>
  On the rows \<open>rows\<close> the comparison is an order: it succeeds with one of the three
  results, a result other than \<^verbatim>\<open>lesser\<close> means that the second row is not above the
  first, and \<open>key_le\<close> is transitive.
\<close>

definition key_ordered :: "'v SortField list \<Rightarrow> 'v sql_Row list \<Rightarrow> bool" where
  "key_ordered sfs rows =
     ((\<forall>a \<in> set rows. \<forall>b \<in> set rows.
         key_le sfs a b \<or> rowCompare sfs a b = Return (greater_cmp, None)) \<and>
      (\<forall>a \<in> set rows. \<forall>b \<in> set rows.
         rowCompare sfs a b = Return (lesser, None) \<or> key_le sfs b a) \<and>
      (\<forall>a \<in> set rows. \<forall>b \<in> set rows. \<forall>c \<in> set rows.
         key_le sfs a b \<longrightarrow> key_le sfs b c \<longrightarrow> key_le sfs a c))"

text \<open>
  The values that a sort field takes on the rows, nulls left out.
\<close>

definition column_values :: "'v SortField \<Rightarrow> 'v option list list \<Rightarrow> 'v list" where
  "column_values sf rows =
     concat (map (\<lambda>l. case Column_Eval sf l of Inr (Some a) \<Rightarrow> [a] | _ \<Rightarrow> []) rows)"

text \<open>
  The comparator of a sort field is a three-way comparison on the values \<open>vs\<close>: it
  returns -1, 0 or 1 without an error, 1 one way round is -1 the other way round, and
  "not 1" is transitive.
\<close>

definition three_way :: "'v SortField \<Rightarrow> 'v list \<Rightarrow> bool" where
  "three_way sf vs =
     ((\<forall>a \<in> set vs. \<forall>b \<in> set vs.
         Column_Type_Compare sf a b = Inr (- 1) \<or> Column_Type_Compare sf a b = Inr 0 \<or>
         Column_Type_Compare sf a b = Inr 1) \<and>
      (\<forall>a \<in> set vs. \<forall>b \<in> set vs.
         (Column_Type_Compare sf a b = Inr 1) = (Column_Type_Compare sf b a = Inr (- 1))) \<and>
      (\<forall>a \<in> set vs. \<forall>b \<in> set vs. \<forall>c \<in> set vs.
         Column_Type_Compare sf a b \<noteq> Inr 1 \<longrightarrow> Column_Type_Compare sf b c \<noteq> Inr 1 \<longrightarrow>
         Column_Type_Compare sf a c \<noteq> Inr 1))"

text \<open>
  The engine orders the rows by the sort fields: every field evaluates on every row
  without an error, and its comparator is a three-way comparison on the values it takes.
\<close>

definition field_ok :: "'v SortField \<Rightarrow> 'v option list list \<Rightarrow> bool" where
  "field_ok sf rows =
     ((\<forall>l \<in> set rows. case Column_Eval sf l of Inr v \<Rightarrow> True | Inl err \<Rightarrow> False) \<and>
      three_way sf (column_values sf rows))"

definition orderable :: "'v SortField list \<Rightarrow> 'v option list list \<Rightarrow> bool" where
  "orderable sfs rows = (\<forall>sf \<in> set sfs. field_ok sf rows)"

text \<open>
  For the proofs: the comparator as an integer, extended to nulls by the null ordering
  of the field (\<open>ocmp\<close>); the value of a field on a row (\<open>ev\<close>); the result of the step
  of \<^verbatim>\<open>rowCompare\<close> for one field (\<open>field_cmp\<close>), 0 when the loop goes on to the next
  field; and the first result other than 0 over the fields (\<open>lex_cmp\<close>).
\<close>

definition cmpi :: "'v SortField \<Rightarrow> 'v \<Rightarrow> 'v \<Rightarrow> int" where
  "cmpi sf a b = (case Column_Type_Compare sf a b of Inr c \<Rightarrow> c | Inl err \<Rightarrow> 0)"

definition ocmp :: "'v SortField \<Rightarrow> 'v option \<Rightarrow> 'v option \<Rightarrow> int" where
  "ocmp sf x y =
     (case (x, y) of
        (None, None) \<Rightarrow> 0
      | (None, Some b) \<Rightarrow> if NullOrdering sf = NullsFirst then - 1 else 1
      | (Some a, None) \<Rightarrow> if NullOrdering sf = NullsFirst then 1 else - 1
      | (Some a, Some b) \<Rightarrow> cmpi sf a b)"

definition ev :: "'v SortField \<Rightarrow> 'v option list \<Rightarrow> 'v option" where
  "ev sf l = (case Column_Eval sf l of Inr v \<Rightarrow> v | Inl err \<Rightarrow> None)"

definition known :: "'v list \<Rightarrow> 'v option \<Rightarrow> bool" where
  "known vs x = (case x of None \<Rightarrow> True | Some a \<Rightarrow> a \<in> set vs)"

definition field_cmp :: "'v SortField \<Rightarrow> 'v option list \<Rightarrow> 'v option list \<Rightarrow> int" where
  "field_cmp sf left right =
     (if Order sf = Descending then ocmp sf (ev sf right) (ev sf left)
      else ocmp sf (ev sf left) (ev sf right))"

fun lex_cmp :: "'v SortField list \<Rightarrow> 'v option list \<Rightarrow> 'v option list \<Rightarrow> int" where
  "lex_cmp [] left right = 0"
| "lex_cmp (sf # sfs) left right =
     (if field_cmp sf left right = 0 then lex_cmp sfs left right else field_cmp sf left right)"

subsection \<open>The run of the differ\<close>

text \<open>
  The caller of the two pulls alternates them: \<^verbatim>\<open>nextFromRow\<close>, then \<^verbatim>\<open>nextToRow\<close>, as
  the loop of \<^verbatim>\<open>NextDiff\<close> does. \<open>pullAll\<close> is that call sequence, run until both pulls of
  a round report the end of the stream, or until an error or a panic. It collects the
  rows in the order in which they are popped, each with its side, and ends with
  \<open>Return io_EOF\<close> at the double end of stream.
\<close>

datatype side = FromSide | ToSide

definition pulled :: "side \<Rightarrow> 'v sql_Row \<times> error option \<Rightarrow> (side \<times> 'v sql_Row) list" where
  "pulled sd res = (case res of (r, None) \<Rightarrow> [(sd, r)] | (r, Some err) \<Rightarrow> [])"

text \<open>The measure of the run: twice the rows left, and one more while a result is stored.\<close>

definition pending :: "'v sortNodeDiffer \<Rightarrow> nat" where
  "pending nd =
     2 * (length (unconsumed (fromIter nd)) + length (unconsumed (toIter nd))) +
     (if lastCmp nd = unknown then 0 else 1)"

lemma startBoth_sel [simp]:
  "unconsumed (fromIter (startBoth nd)) = unconsumed (fromIter nd)"
  "unconsumed (toIter (startBoth nd)) = unconsumed (toIter nd)"
  "lastCmp (startBoth nd) = lastCmp nd"
  "fromChild (startBoth nd) = fromChild nd"
  "toChild (startBoth nd) = toChild nd"
  "ae (startBoth nd) = ae nd"
  by (simp_all add: startBoth_def maybeStart_def)

lemma nextFromRow_Nil:
  "unconsumed (fromIter nd) = [] \<Longrightarrow> nextFromRow nd = (Return (None, Some io_EOF), startBoth nd)"
  by (simp add: nextFromRow_def isDone_def)

lemma nextFromRow_to_Nil:
  "unconsumed (fromIter nd) = f # fs \<Longrightarrow> unconsumed (toIter nd) = [] \<Longrightarrow>
   nextFromRow nd = popFrom (startBoth nd)"
  by (simp add: nextFromRow_def isDone_def)

lemma nextFromRow_stale:
  "unconsumed (fromIter nd) = f # fs \<Longrightarrow> unconsumed (toIter nd) = t # ts \<Longrightarrow> lastCmp nd \<noteq> unknown \<Longrightarrow>
   nextFromRow nd = (Panic ''query diff iterators called out of order'', startBoth nd)"
  by (simp add: nextFromRow_def isDone_def)

lemma nextFromRow_compare:
  "unconsumed (fromIter nd) = f # fs \<Longrightarrow> unconsumed (toIter nd) = t # ts \<Longrightarrow> lastCmp nd = unknown \<Longrightarrow>
   nextFromRow nd =
     (case rowCompare (SortFields (fromChild nd)) f t of
        Panic msg \<Rightarrow> (Panic msg, startBoth nd)
      | Return (c, err) \<Rightarrow>
          if err \<noteq> None then (Return (None, err), (startBoth nd)\<lparr>lastCmp := c\<rparr>)
          else if c = lesser \<or> c = equal_cmp then popFrom ((startBoth nd)\<lparr>lastCmp := c\<rparr>)
          else if c = greater_cmp then (Return (None, Some errSkip), (startBoth nd)\<lparr>lastCmp := c\<rparr>)
          else (Panic ''incorrect value fromIter rowCmp'', (startBoth nd)\<lparr>lastCmp := c\<rparr>))"
  by (simp add: nextFromRow_def isDone_def peek_def Let_def split: result.splits prod.splits)

lemma nextToRow_Nil:
  "unconsumed (toIter nd) = [] \<Longrightarrow> nextToRow nd = (Return (None, Some io_EOF), startBoth nd)"
  by (simp add: nextToRow_def isDone_def)

lemma nextToRow_from_Nil:
  "unconsumed (toIter nd) = t # ts \<Longrightarrow> unconsumed (fromIter nd) = [] \<Longrightarrow> lastCmp nd = unknown \<Longrightarrow>
   nextToRow nd = popTo (startBoth nd)"
  by (simp add: nextToRow_def isDone_def)

lemma nextToRow_unknown:
  "unconsumed (toIter nd) = t # ts \<Longrightarrow> unconsumed (fromIter nd) = f # fs \<Longrightarrow> lastCmp nd = unknown \<Longrightarrow>
   nextToRow nd = (Panic ''query diff iterators called out of order'', startBoth nd)"
  by (simp add: nextToRow_def isDone_def)

lemma nextToRow_consume:
  "unconsumed (toIter nd) = t # ts \<Longrightarrow> lastCmp nd \<noteq> unknown \<Longrightarrow>
   nextToRow nd =
     (if lastCmp nd = lesser then (Return (None, Some errSkip), (startBoth nd)\<lparr>lastCmp := unknown\<rparr>)
      else if lastCmp nd = equal_cmp \<or> lastCmp nd = greater_cmp then popTo ((startBoth nd)\<lparr>lastCmp := unknown\<rparr>)
      else (Panic ''incorrect value fromIter rowCmp'', (startBoth nd)\<lparr>lastCmp := unknown\<rparr>))"
  by (simp add: nextToRow_def isDone_def Let_def)


lemma rowCompare_fields_error:
  "rowCompare_fields sfs l r = (c, Some e) \<Longrightarrow> c = unknown \<or> c = equal_cmp"
  by (induction sfs l r rule: rowCompare_fields.induct)
     (auto simp: equal_cmp_def Let_def split: sum.splits option.splits if_splits)

lemma pending_startBoth [simp]: "pending (startBoth nd) = pending nd"
  by (simp add: pending_def)

lemma popFrom_Cons:
  "unconsumed (fromIter nd) = f # fs \<Longrightarrow>
   popFrom nd = (Return (f, None), nd\<lparr>fromIter := (fromIter nd)\<lparr>unconsumed := fs\<rparr>\<rparr>)"
  by (simp add: popFrom_def pop_def)

lemma popTo_Cons:
  "unconsumed (toIter nd) = t # ts \<Longrightarrow>
   popTo nd = (Return (t, None), nd\<lparr>toIter := (toIter nd)\<lparr>unconsumed := ts\<rparr>\<rparr>)"
  by (simp add: popTo_def pop_def)

lemma nextToRow_pending:
  assumes "nextToRow nd1 = (Return (r', err'), nd2)"
  shows "(err' = Some io_EOF \<and> unconsumed (toIter nd1) = [] \<and> pending nd2 = pending nd1) \<or>
         (unconsumed (toIter nd1) \<noteq> [] \<and> err' = None \<and> pending nd2 + 2 \<le> pending nd1) \<or>
         (unconsumed (toIter nd1) \<noteq> [] \<and> err' = Some errSkip \<and> lastCmp nd1 = lesser \<and>
            pending nd2 + 1 = pending nd1)"
proof (cases "unconsumed (toIter nd1)")
  case Nil
  with assms show ?thesis by (auto simp: nextToRow_Nil)
next
  case (Cons t ts)
  show ?thesis
  proof (cases "lastCmp nd1 = unknown")
    case True
    show ?thesis
    proof (cases "unconsumed (fromIter nd1)")
      case Nil
      with assms Cons True show ?thesis
        by (auto simp: nextToRow_from_Nil popTo_Cons pending_def)
    next
      case (Cons f fs)
      with assms \<open>unconsumed (toIter nd1) = t # ts\<close> True show ?thesis
        by (simp add: nextToRow_unknown)
    qed
  next
    case False
    with assms Cons show ?thesis
      by (auto simp: nextToRow_consume popTo_Cons pending_def rowCmp_defs split: if_splits)
  qed
qed

lemma nextFromRow_pending:
  assumes "nextFromRow nd = (Return (r, err), nd1)"
  shows "unconsumed (toIter nd1) = unconsumed (toIter nd) \<and>
         ((err = Some io_EOF \<and> unconsumed (fromIter nd) = [] \<and> pending nd1 = pending nd) \<or>
          pending nd1 < pending nd \<or>
          (unconsumed (toIter nd) \<noteq> [] \<and> lastCmp nd1 \<noteq> lesser \<and> pending nd1 \<le> pending nd + 1))"
proof (cases "unconsumed (fromIter nd)")
  case Nil
  with assms show ?thesis by (auto simp: nextFromRow_Nil)
next
  case (Cons f fs)
  note f = Cons
  show ?thesis
  proof (cases "unconsumed (toIter nd)")
    case Nil
    with assms f show ?thesis
      by (auto simp: nextFromRow_to_Nil popFrom_Cons pending_def)
  next
    case (Cons t ts)
    note t = Cons
    show ?thesis
    proof (cases "lastCmp nd = unknown")
      case False
      with assms f t show ?thesis by (simp add: nextFromRow_stale)
    next
      case True
      show ?thesis
      proof (cases "rowCompare (SortFields (fromChild nd)) f t")
        case (Panic msg)
        with assms f t True show ?thesis by (simp add: nextFromRow_compare)
      next
        case (Return ce)
        obtain c e where ce: "ce = (c, e)" by (cases ce)
        show ?thesis
        proof (cases e)
          case None
          with assms f t True Return ce show ?thesis
            by (auto simp: nextFromRow_compare popFrom_Cons pending_def rowCmp_defs split: if_splits)
        next
          case (Some x)
          with Return ce have "c = unknown \<or> c = equal_cmp"
            by (auto simp: rowCompare_def split: option.splits dest: rowCompare_fields_error)
          with assms f t True Return ce Some show ?thesis
            by (auto simp: nextFromRow_compare pending_def rowCmp_defs)
        qed
      qed
    qed
  qed
qed

lemma round_pending:
  assumes "nextFromRow nd = (Return (r, err), nd1)"
    and "nextToRow nd1 = (Return (r', err'), nd2)"
    and "\<not> (err = Some io_EOF \<and> err' = Some io_EOF)"
  shows "pending nd2 < pending nd"
  using nextFromRow_pending [OF assms(1)] nextToRow_pending [OF assms(2)] assms(3)
  by (elim conjE disjE) simp_all

function pullAll :: "'v sortNodeDiffer \<Rightarrow> (side \<times> 'v sql_Row) list \<times> error result" where
  "pullAll nd =
     (case nextFromRow nd of
        (Panic msg, nd1) \<Rightarrow> ([], Panic msg)
      | (Return (fr, ferr), nd1) \<Rightarrow>
          if ferr \<noteq> None \<and> ferr \<noteq> Some io_EOF \<and> ferr \<noteq> Some errSkip
          then ([], Return (the ferr))
          else
            (case nextToRow nd1 of
               (Panic msg, nd2) \<Rightarrow> (pulled FromSide (fr, ferr), Panic msg)
             | (Return (tr, terr), nd2) \<Rightarrow>
                 if terr \<noteq> None \<and> terr \<noteq> Some io_EOF \<and> terr \<noteq> Some errSkip
                 then (pulled FromSide (fr, ferr), Return (the terr))
                 else if ferr = Some io_EOF \<and> terr = Some io_EOF
                 then ([], Return io_EOF)
                 else
                   (case pullAll nd2 of
                      (ps, out) \<Rightarrow> (pulled FromSide (fr, ferr) @ pulled ToSide (tr, terr) @ ps, out))))"
  by pat_completeness auto
termination
  apply (relation "measure pending")
   apply simp
  apply (simp only: in_measure)
  subgoal for nd x nd1 x1 fr ferr xb nd2 x1a tr terr
    using round_pending [of nd fr ferr nd1 tr terr nd2] by auto
  done

declare pullAll.simps [simp del]


subsection \<open>A column of integers\<close>

text \<open>
  A sort field of the engine for the examples: the field \<open>i\<close> of the row (the engine's
  \<^verbatim>\<open>GetField\<close>), with the three-way comparison of integers.
\<close>

definition intColumn :: "nat \<Rightarrow> SortOrder \<Rightarrow> NullOrdering \<Rightarrow> int SortField" where
  "intColumn i ord nul =
     \<lparr>Column_Eval =
        (\<lambda>row. if i < length row then Inr (row ! i) else Inl (Failure ''index out of range'')),
      Column_Type_Compare = (\<lambda>a b. Inr (if a < b then - 1 else if a = b then 0 else 1)),
      Order = ord, NullOrdering = nul\<rparr>"

text \<open>Equality of rows of integers for the examples: the rows are the same.\<close>

definition intRowEquals :: "int sql_Row \<Rightarrow> int sql_Row \<Rightarrow> error + bool" where
  "intRowEquals a b = Inr (a = b)"

text \<open>Rows of two integer columns, a sort on the first column, and a differ over them.\<close>

definition intSort :: "int plan_Sort" where
  "intSort = \<lparr>SortFields = [intColumn 0 Ascending NullsFirst]\<rparr>"

definition intRow :: "int \<Rightarrow> int \<Rightarrow> int sql_Row" where
  "intRow k v = Some [Some k, Some v]"

definition intDiffer :: "int sql_Row list \<Rightarrow> int sql_Row list \<Rightarrow> int sortNodeDiffer" where
  "intDiffer fromRows toRows = newSortNodeDiffer intSort intSort fromRows toRows"

text \<open>
  The example of the specification, the second column as numbers: the from-rows (1, a),
  (2, b), (3, c) and the to-rows (1, a), (2, B), (4, d), both ordered by the first column.
\<close>

definition exampleFrom :: "int sql_Row list" where
  "exampleFrom = [intRow 1 10, intRow 2 20, intRow 3 30]"

definition exampleTo :: "int sql_Row list" where
  "exampleTo = [intRow 1 10, intRow 2 21, intRow 4 40]"

text \<open>
  The differ after one from-side pull: the row with key 1 has been popped, the result
  \<^verbatim>\<open>lesser\<close> of its comparison is stored, and both sides still hold a row.
\<close>

definition staleDiffer :: "int sortNodeDiffer" where
  "staleDiffer =
     snd (nextFromRow
       (intDiffer [intRow 1 0, intRow 2 0] [intRow 3 0]))"

text \<open>
  An iterator for the examples, over a pair of flags: its \<^verbatim>\<open>Close\<close> sets the flag of its
  side and reports an error.
\<close>

definition flagIter :: "bool \<Rightarrow> string \<Rightarrow> (bool \<times> bool, int) sql_RowIter" where
  "flagIter fromSide msg =
     \<lparr>Next = (\<lambda>s. (Return (None, Some io_EOF), s)),
      Close = (\<lambda>s. (Some (Failure msg), if fromSide then (True, snd s) else (fst s, True)))\<rparr>"

section \<open>Properties\<close>

lemmas differ_defs =
  newSortNodeDiffer_def newIterQueue_def nextFromRow_def nextToRow_def startBoth_def
  maybeStart_def isDone_def peek_def popFrom_def popTo_def pop_def rowCompare_def
  rowCmp_defs rowCmp_of_int_def Let_def

lemmas example_defs = intSort_def intRow_def intDiffer_def intColumn_def intRowEquals_def

subsection \<open>Null placement in the key comparison\<close>

lemma rowCompare_fields_ties:
  "list_all (\<lambda>c. ties c l r) pre \<Longrightarrow>
   rowCompare_fields (pre @ rest) l r = rowCompare_fields rest l r"
proof (induction pre)
  case Nil
  then show ?case by simp
next
  case (Cons c pre)
  from Cons.prems have t: "ties c l r" and rest: "list_all (\<lambda>c. ties c l r) pre"
    by simp_all
  from t show ?case
    by (auto simp: ties_def Cons.IH [OF rest] split: sum.splits option.splits if_splits)
qed




subsection \<open>The from-side pull\<close>

lemma staleDiffer_eq:
  "staleDiffer =
     \<lparr>fromChild = intSort, toChild = intSort,
      fromIter = \<lparr>unconsumed = [intRow 2 0], isStarted = True, isClosed = False\<rparr>,
      toIter = \<lparr>unconsumed = [intRow 3 0], isStarted = True, isClosed = False\<rparr>,
      lastCmp = lesser, ae = None\<rparr>"
  by (simp add: staleDiffer_def example_defs differ_defs)

text \<open>
  C4 (as stated, refuted by the code): every call of \<^verbatim>\<open>nextFromRow\<close> with rows on both
  sides would compare the two peeks and, on \<^verbatim>\<open>lesser\<close>, pop and return the from-row. In
  the state that one from-side pull leaves behind, both sides hold a row and the peeks
  compare as \<^verbatim>\<open>lesser\<close>, and the call panics: the guard on \<^verbatim>\<open>lastCmp\<close> comes before the
  comparison.
\<close>

theorem nextFromRow_stale_counterexample:
  "\<not> isDone (fromIter staleDiffer) \<and> \<not> isDone (toIter staleDiffer) \<and>
   rowCompare (SortFields (fromChild staleDiffer)) (peek (fromIter staleDiffer)) (peek (toIter staleDiffer)) =
     Return (lesser, None) \<and>
   fst (nextFromRow staleDiffer) = Panic ''query diff iterators called out of order'' \<and>
   fst (nextFromRow staleDiffer) \<noteq> Return (peek (fromIter staleDiffer), None)"
  by (simp add: staleDiffer_eq example_defs differ_defs)

text \<open>
  C4 (amended): every call of \<^verbatim>\<open>nextFromRow\<close> behaves as follows. If the from-side is
  exhausted it reports the end of the stream. Otherwise, if the to-side is exhausted, it
  pops and returns the next from-row, whatever the stored state. Otherwise, if the stored
  state is not \<^verbatim>\<open>unknown\<close>, it panics with the out-of-order message and pops nothing.
  Otherwise it compares the two peeks and, when the comparison returns a result without
  an error, stores the result; on \<^verbatim>\<open>lesser\<close> or \<^verbatim>\<open>equal\<close> it pops and returns the from-row,
  and on \<^verbatim>\<open>greater\<close> it returns \<^verbatim>\<open>errSkip\<close> and pops neither side.
\<close>

theorem nextFromRow_behaviour:
  "(isDone (fromIter nd) \<longrightarrow>
      nextFromRow nd = (Return (None, Some io_EOF), startBoth nd)) \<and>
   (\<not> isDone (fromIter nd) \<and> isDone (toIter nd) \<longrightarrow>
      nextFromRow nd =
        (Return (peek (fromIter nd), None),
         (startBoth nd)\<lparr>fromIter := snd (pop (maybeStart (fromIter nd)))\<rparr>)) \<and>
   (\<not> isDone (fromIter nd) \<and> \<not> isDone (toIter nd) \<and> lastCmp nd \<noteq> unknown \<longrightarrow>
      nextFromRow nd = (Panic ''query diff iterators called out of order'', startBoth nd)) \<and>
   (\<not> isDone (fromIter nd) \<and> \<not> isDone (toIter nd) \<and> lastCmp nd = unknown \<and>
    rowCompare (SortFields (fromChild nd)) (peek (fromIter nd)) (peek (toIter nd)) = Return (c, None) \<longrightarrow>
      lastCmp (snd (nextFromRow nd)) = c \<and>
      (c = lesser \<or> c = equal_cmp \<longrightarrow>
         nextFromRow nd =
           (Return (peek (fromIter nd), None),
            (startBoth nd)\<lparr>lastCmp := c, fromIter := snd (pop (maybeStart (fromIter nd)))\<rparr>)) \<and>
      (c = greater_cmp \<longrightarrow>
         nextFromRow nd = (Return (None, Some errSkip), (startBoth nd)\<lparr>lastCmp := c\<rparr>)))"
  by (cases "unconsumed (fromIter nd)")
     (auto simp: nextFromRow_def isDone_def peek_def popFrom_def pop_def startBoth_def maybeStart_def
        Let_def rowCmp_defs split: list.splits)

theorem nextFromRow_behaviour_witness:
  "fst (nextFromRow (intDiffer [] [intRow 3 0])) = Return (None, Some io_EOF) \<and>
   fst (nextFromRow (intDiffer [intRow 1 0] [])) = Return (intRow 1 0, None) \<and>
   fst (nextFromRow ((intDiffer [intRow 1 0] [intRow 3 0])\<lparr>lastCmp := lesser\<rparr>)) =
     Panic ''query diff iterators called out of order'' \<and>
   fst (nextFromRow (intDiffer [intRow 1 0] [intRow 3 0])) = Return (intRow 1 0, None) \<and>
   lastCmp (snd (nextFromRow (intDiffer [intRow 1 0] [intRow 3 0]))) = lesser \<and>
   nextFromRow (intDiffer [intRow 5 0] [intRow 3 0]) =
     (Return (None, Some errSkip), (startBoth (intDiffer [intRow 5 0] [intRow 3 0]))\<lparr>lastCmp := greater_cmp\<rparr>)"
  using nextFromRow_behaviour [of "intDiffer [] [intRow 3 0]" 0]
    nextFromRow_behaviour [of "intDiffer [intRow 1 0] []" 0]
    nextFromRow_behaviour [of "(intDiffer [intRow 1 0] [intRow 3 0])\<lparr>lastCmp := lesser\<rparr>" 0]
    nextFromRow_behaviour [of "intDiffer [intRow 1 0] [intRow 3 0]" lesser]
    nextFromRow_behaviour [of "intDiffer [intRow 5 0] [intRow 3 0]" greater_cmp]
  by (simp add: example_defs newSortNodeDiffer_def newIterQueue_def startBoth_def
      maybeStart_def isDone_def peek_def pop_def rowCompare_def rowCmp_defs rowCmp_of_int_def)

subsection \<open>Calls out of order\<close>

text \<open>
  C5: while both sides still have rows, a second \<^verbatim>\<open>nextFromRow\<close> right after a first one
  panics with the out-of-order message, and so does \<^verbatim>\<open>nextToRow\<close> called in the state
  \<^verbatim>\<open>unknown\<close> while the from-side is not exhausted; neither returns a row or an error.
  The first part is for a comparison of the two peeks that returns one of the three
  results without an error; \<open>nd1\<close> is the state after the first call.
\<close>

theorem out_of_order_fatal:
  "(unconsumed (fromIter nd) = f # fs \<and> unconsumed (toIter nd) = t # ts \<and>
    rowCompare (SortFields (fromChild nd)) f t = Return (c, None) \<and>
    (c = lesser \<or> c = equal_cmp \<or> c = greater_cmp) \<and>
    nextFromRow nd = (res, nd1) \<and> \<not> isDone (fromIter nd1) \<longrightarrow>
      \<not> isDone (toIter nd1) \<and>
      nextFromRow nd1 = (Panic ''query diff iterators called out of order'', nd1)) \<and>
   (\<not> isDone (fromIter nd) \<and> \<not> isDone (toIter nd) \<and> lastCmp nd = unknown \<longrightarrow>
      nextToRow nd = (Panic ''query diff iterators called out of order'', startBoth nd))"
proof (intro conjI impI)
  assume a: "unconsumed (fromIter nd) = f # fs \<and> unconsumed (toIter nd) = t # ts \<and>
    rowCompare (SortFields (fromChild nd)) f t = Return (c, None) \<and>
    (c = lesser \<or> c = equal_cmp \<or> c = greater_cmp) \<and>
    nextFromRow nd = (res, nd1) \<and> \<not> isDone (fromIter nd1)"
  then have f: "unconsumed (fromIter nd) = f # fs" and t: "unconsumed (toIter nd) = t # ts"
    and cmp: "rowCompare (SortFields (fromChild nd)) f t = Return (c, None)"
    and c: "c = lesser \<or> c = equal_cmp \<or> c = greater_cmp"
    and res: "nextFromRow nd = (res, nd1)" and nd1: "\<not> isDone (fromIter nd1)"
    by simp_all
  have "unconsumed (toIter nd1) = t # ts \<and> lastCmp nd1 \<noteq> unknown \<and>
        isStarted (fromIter nd1) \<and> isStarted (toIter nd1)"
  proof (cases "lastCmp nd = unknown")
    case False
    with f t res show ?thesis
      by (auto simp: nextFromRow_stale startBoth_def maybeStart_def)
  next
    case True
    with f t res cmp c show ?thesis
      by (auto simp: nextFromRow_compare popFrom_Cons startBoth_def maybeStart_def rowCmp_defs)
  qed
  moreover obtain f' fs' where "unconsumed (fromIter nd1) = f' # fs'"
    using nd1 by (cases "unconsumed (fromIter nd1)") (auto simp: isDone_def)
  ultimately show "\<not> isDone (toIter nd1)"
    and "nextFromRow nd1 = (Panic ''query diff iterators called out of order'', nd1)"
    by (simp_all add: isDone_def nextFromRow_stale startBoth_def maybeStart_def)
next
  assume "\<not> isDone (fromIter nd) \<and> \<not> isDone (toIter nd) \<and> lastCmp nd = unknown"
  then show "nextToRow nd = (Panic ''query diff iterators called out of order'', startBoth nd)"
    by (simp add: nextToRow_def isDone_def)
qed

theorem out_of_order_fatal_witness:
  "fst (nextFromRow (snd (nextFromRow (intDiffer [intRow 1 0, intRow 2 0] [intRow 3 0])))) =
     Panic ''query diff iterators called out of order'' \<and>
   fst (nextToRow (intDiffer [intRow 1 0] [intRow 3 0])) =
     Panic ''query diff iterators called out of order''"
  using out_of_order_fatal [where nd = "intDiffer [intRow 1 0, intRow 2 0] [intRow 3 0]"
      and f = "intRow 1 0" and fs = "[intRow 2 0]" and t = "intRow 3 0" and ts = "[]" and c = lesser
      and res = "fst (nextFromRow (intDiffer [intRow 1 0, intRow 2 0] [intRow 3 0]))"
      and ?nd1.0 = "snd (nextFromRow (intDiffer [intRow 1 0, intRow 2 0] [intRow 3 0]))"]
    out_of_order_fatal [where nd = "intDiffer [intRow 1 0] [intRow 3 0]"
      and f = "intRow 1 0" and fs = "[]" and t = "intRow 3 0" and ts = "[]" and c = lesser
      and res = "fst (nextFromRow (intDiffer [intRow 1 0] [intRow 3 0]))"
      and ?nd1.0 = "snd (nextFromRow (intDiffer [intRow 1 0] [intRow 3 0]))"]
  by (simp add: example_defs differ_defs)

subsection \<open>The stored comparison\<close>

lemma nextFromRow_keeps_stored:
  "lastCmp nd \<noteq> unknown \<Longrightarrow> lastCmp (snd (nextFromRow nd)) = lastCmp nd"
  by (cases "unconsumed (fromIter nd)")
     (auto simp: nextFromRow_def isDone_def popFrom_def pop_def Let_def split: list.splits)

lemma nextToRow_resets:
  "\<not> isDone (toIter nd) \<Longrightarrow> lastCmp (snd (nextToRow nd)) = unknown"
  by (cases "unconsumed (toIter nd)")
     (auto simp: nextToRow_def isDone_def popTo_def pop_def Let_def split: list.splits)

lemma nextToRow_unknown_stays:
  "lastCmp nd = unknown \<Longrightarrow> lastCmp (snd (nextToRow nd)) = unknown"
  by (cases "unconsumed (toIter nd)")
     (auto simp: nextToRow_def isDone_def popTo_def pop_def Let_def split: list.splits)

lemma nextFromRow_toIter:
  "unconsumed (toIter (snd (nextFromRow nd))) = unconsumed (toIter nd)"
  by (cases "unconsumed (fromIter nd)")
     (auto simp: nextFromRow_def isDone_def popFrom_def pop_def Let_def
        split: list.splits result.splits prod.splits)

lemma nextFromRow_sets_needs_to:
  "lastCmp nd = unknown \<Longrightarrow> lastCmp (snd (nextFromRow nd)) \<noteq> unknown \<Longrightarrow> \<not> isDone (toIter nd)"
  by (cases "unconsumed (fromIter nd)")
     (auto simp: nextFromRow_def isDone_def popFrom_def pop_def Let_def
        split: list.splits result.splits prod.splits if_splits)

text \<open>
  C7: the alternation of the stored comparison. A call of \<^verbatim>\<open>nextFromRow\<close> that compares
  leaves its result in \<^verbatim>\<open>lastCmp\<close>, with a row still on the to-side; \<^verbatim>\<open>nextFromRow\<close>
  never replaces a stored result; a call of \<^verbatim>\<open>nextToRow\<close> that finds a stored result and
  a row on its side acts on that result and leaves \<^verbatim>\<open>unknown\<close>; \<^verbatim>\<open>nextToRow\<close> stores no
  result itself; so a round of the two calls that starts in \<^verbatim>\<open>unknown\<close> ends in
  \<^verbatim>\<open>unknown\<close>.
\<close>

theorem lastCmp_alternation:
  "(\<not> isDone (fromIter nd) \<and> \<not> isDone (toIter nd) \<and> lastCmp nd = unknown \<and>
    rowCompare (SortFields (fromChild nd)) (peek (fromIter nd)) (peek (toIter nd)) = Return (c, None) \<and>
    (c = lesser \<or> c = equal_cmp \<or> c = greater_cmp) \<longrightarrow>
      lastCmp (snd (nextFromRow nd)) = c \<and> c \<noteq> unknown \<and>
      \<not> isDone (toIter (snd (nextFromRow nd)))) \<and>
   (lastCmp nd \<noteq> unknown \<longrightarrow> lastCmp (snd (nextFromRow nd)) = lastCmp nd) \<and>
   (lastCmp nd \<noteq> unknown \<and> \<not> isDone (toIter nd) \<longrightarrow>
      lastCmp (snd (nextToRow nd)) = unknown \<and>
      fst (nextToRow nd) =
        (if lastCmp nd = lesser then Return (None, Some errSkip)
         else if lastCmp nd = equal_cmp \<or> lastCmp nd = greater_cmp
         then Return (peek (toIter nd), None)
         else Panic ''incorrect value fromIter rowCmp'')) \<and>
   (lastCmp nd = unknown \<longrightarrow> lastCmp (snd (nextToRow nd)) = unknown) \<and>
   (lastCmp nd = unknown \<longrightarrow> lastCmp (snd (nextToRow (snd (nextFromRow nd)))) = unknown)"
proof (intro conjI impI)
  assume "\<not> isDone (fromIter nd) \<and> \<not> isDone (toIter nd) \<and> lastCmp nd = unknown \<and>
    rowCompare (SortFields (fromChild nd)) (peek (fromIter nd)) (peek (toIter nd)) = Return (c, None) \<and>
    (c = lesser \<or> c = equal_cmp \<or> c = greater_cmp)"
  then show "lastCmp (snd (nextFromRow nd)) = c" and "c \<noteq> unknown"
    and "\<not> isDone (toIter (snd (nextFromRow nd)))"
    by (auto simp: nextFromRow_def isDone_def popFrom_def pop_def peek_def Let_def rowCmp_defs
        split: list.splits)
next
  assume "lastCmp nd \<noteq> unknown"
  then show "lastCmp (snd (nextFromRow nd)) = lastCmp nd" by (rule nextFromRow_keeps_stored)
next
  assume a: "lastCmp nd \<noteq> unknown \<and> \<not> isDone (toIter nd)"
  then show "lastCmp (snd (nextToRow nd)) = unknown" by (simp add: nextToRow_resets)
  from a show "fst (nextToRow nd) =
        (if lastCmp nd = lesser then Return (None, Some errSkip)
         else if lastCmp nd = equal_cmp \<or> lastCmp nd = greater_cmp
         then Return (peek (toIter nd), None)
         else Panic ''incorrect value fromIter rowCmp'')"
    by (auto simp: nextToRow_def isDone_def popTo_def pop_def peek_def Let_def split: list.splits)
next
  assume "lastCmp nd = unknown"
  then show "lastCmp (snd (nextToRow nd)) = unknown" by (rule nextToRow_unknown_stays)
next
  assume u: "lastCmp nd = unknown"
  show "lastCmp (snd (nextToRow (snd (nextFromRow nd)))) = unknown"
  proof (cases "lastCmp (snd (nextFromRow nd)) = unknown")
    case True
    then show ?thesis by (rule nextToRow_unknown_stays)
  next
    case False
    with u have "\<not> isDone (toIter nd)" by (rule nextFromRow_sets_needs_to)
    then have "\<not> isDone (toIter (snd (nextFromRow nd)))"
      by (simp add: isDone_def nextFromRow_toIter)
    then show ?thesis by (rule nextToRow_resets)
  qed
qed

theorem lastCmp_alternation_witness:
  "lastCmp (snd (nextFromRow (intDiffer [intRow 1 0] [intRow 3 0]))) = lesser \<and>
   lastCmp (snd (nextFromRow ((intDiffer [intRow 1 0] [intRow 3 0])\<lparr>lastCmp := greater_cmp\<rparr>))) = greater_cmp \<and>
   nextToRow ((intDiffer [intRow 1 0] [intRow 3 0])\<lparr>lastCmp := greater_cmp\<rparr>) =
     (Return (intRow 3 0, None), (startBoth (intDiffer [intRow 1 0] []))\<lparr>lastCmp := unknown\<rparr>) \<and>
   lastCmp (snd (nextToRow (intDiffer [] [intRow 3 0]))) = unknown \<and>
   lastCmp (snd (nextToRow (snd (nextFromRow (intDiffer [intRow 1 0] [intRow 3 0]))))) = unknown"
  using lastCmp_alternation [of "intDiffer [intRow 1 0] [intRow 3 0]" lesser]
    lastCmp_alternation [of "(intDiffer [intRow 1 0] [intRow 3 0])\<lparr>lastCmp := greater_cmp\<rparr>" 0]
    lastCmp_alternation [of "intDiffer [] [intRow 3 0]" 0]
  by (simp add: example_defs differ_defs)

subsection \<open>Validation of the plan\<close>

lemma first_child_chain_not_Nil [simp]: "first_child_chain p \<noteq> []"
  by (induction p rule: first_child_chain.induct) simp_all

text \<open>
  C8 (as stated, refuted by the code): a plan whose sort node is reached only through a
  node with several children would be rejected. The validation follows the first child
  of a node however many children it has, so the plan below, whose root has two children
  and whose first child is the sort node, is accepted.
\<close>

theorem validate_multi_child_counterexample:
  "recursiveValidateQueryPlan (Other (Some [Sort (Other None), Other None])) = Return None \<and>
   \<not> list_ex is_Sort (spec_single_child_chain (Other (Some [Sort (Other None), Other None])))"
  by (simp add: is_Sort_def)

text \<open>
  C8 (amended): the validation accepts a plan exactly when a sort node lies on the
  first-child chain from the root, the chain that goes from each node that is not a sort
  node to its first child, whatever the number of its children. It rejects the plan with
  the error of the missing sort node exactly when no sort node lies on that chain and
  the chain ends in a node whose \<^verbatim>\<open>Children()\<close> is nil.
\<close>

theorem validate_first_child_chain:
  "(recursiveValidateQueryPlan p = Return None \<longleftrightarrow> list_ex is_Sort (first_child_chain p)) \<and>
   (recursiveValidateQueryPlan p = Return (Some (Failure ''query plan does not contain a sort node'')) \<longleftrightarrow>
      (\<not> list_ex is_Sort (first_child_chain p) \<and> last (first_child_chain p) = Other None))"
  by (induction p rule: recursiveValidateQueryPlan.induct) (simp_all add: is_Sort_def)

subsection \<open>Close\<close>

text \<open>
  C9: \<^verbatim>\<open>QueryDiffer.Close\<close> closes the from-side iterator and then the to-side iterator in
  every call, so the state after it is the state after both closes. When the from-side
  close reports an error, that error is returned, also when the to-side close reports
  one; the result of the to-side close is returned when the from-side close reports
  none.
\<close>

theorem QueryDiffer_Close_both:
  assumes "Close (qd_fromIter qd) s = (fromErr, s1)" and "Close (qd_toIter qd) s1 = (toErr, s2)"
  shows "snd (QueryDiffer_Close qd s) = s2 \<and>
         (fromErr \<noteq> None \<longrightarrow> fst (QueryDiffer_Close qd s) = fromErr) \<and>
         (fromErr = None \<longrightarrow> fst (QueryDiffer_Close qd s) = toErr)"
  using assms by (simp add: QueryDiffer_Close_def)

theorem QueryDiffer_Close_both_witness:
  "QueryDiffer_Close \<lparr>sch = intRowEquals, qd_fromIter = flagIter True ''from'', qd_toIter = flagIter False ''to''\<rparr>
      (False, False) = (Some (Failure ''from''), (True, True))"
  using QueryDiffer_Close_both [of "\<lparr>sch = intRowEquals, qd_fromIter = flagIter True ''from'', qd_toIter = flagIter False ''to''\<rparr>"
      "(False, False)" "Some (Failure ''from'')" "(True, False)" "Some (Failure ''to'')" "(True, True)"]
  by (simp add: flagIter_def prod_eq_iff)

lemma close_queue_closed: "close_queue q = q\<lparr>isClosed := True\<rparr>"
  by (simp add: close_queue_def)

text \<open>
  C10: \<^verbatim>\<open>Close\<close> of the from-node's iterator returns nil and leaves the differ as it is.
  \<^verbatim>\<open>Close\<close> of the to-node's iterator closes both lookahead queues and returns the shared
  error.
\<close>

theorem synthetic_Close:
  "Close (iter (makeFromNode nd)) s = (None, s) \<and>
   Close (iter (makeToNode nd)) s =
     (ae s, s\<lparr>fromIter := (fromIter s)\<lparr>isClosed := True\<rparr>,
              toIter := (toIter s)\<lparr>isClosed := True\<rparr>\<rparr>)"
  by (simp add: makeFromNode_def makeToNode_def sortNodeDiffer_close_def close_queue_closed Let_def)

subsection \<open>Rounds of the two pulls\<close>

lemma round_done:
  assumes "unconsumed (fromIter nd) = []" and "unconsumed (toIter nd) = []"
  shows "\<exists>nd1 nd2. nextFromRow nd = (Return (None, Some io_EOF), nd1) \<and>
           nextToRow nd1 = (Return (None, Some io_EOF), nd2) \<and>
           unconsumed (fromIter nd2) = [] \<and> unconsumed (toIter nd2) = [] \<and>
           lastCmp nd2 = lastCmp nd \<and> fromChild nd2 = fromChild nd"
  using assms by (simp add: nextFromRow_Nil nextToRow_Nil)

lemma round_to_only:
  assumes "unconsumed (fromIter nd) = []" and "unconsumed (toIter nd) = t # ts"
    and "lastCmp nd = unknown"
  shows "\<exists>nd1 nd2. nextFromRow nd = (Return (None, Some io_EOF), nd1) \<and>
           nextToRow nd1 = (Return (t, None), nd2) \<and>
           unconsumed (fromIter nd2) = [] \<and> unconsumed (toIter nd2) = ts \<and>
           lastCmp nd2 = unknown \<and> fromChild nd2 = fromChild nd"
  using assms by (simp add: nextFromRow_Nil nextToRow_from_Nil popTo_Cons)

lemma round_from_only:
  assumes "unconsumed (fromIter nd) = f # fs" and "unconsumed (toIter nd) = []"
    and "lastCmp nd = unknown"
  shows "\<exists>nd1 nd2. nextFromRow nd = (Return (f, None), nd1) \<and>
           nextToRow nd1 = (Return (None, Some io_EOF), nd2) \<and>
           unconsumed (fromIter nd2) = fs \<and> unconsumed (toIter nd2) = [] \<and>
           lastCmp nd2 = unknown \<and> fromChild nd2 = fromChild nd"
  using assms by (simp add: nextFromRow_to_Nil popFrom_Cons nextToRow_Nil)

lemma round_lesser:
  assumes "unconsumed (fromIter nd) = f # fs" and "unconsumed (toIter nd) = t # ts"
    and "lastCmp nd = unknown"
    and "rowCompare (SortFields (fromChild nd)) f t = Return (lesser, None)"
  shows "\<exists>nd1 nd2. nextFromRow nd = (Return (f, None), nd1) \<and>
           nextToRow nd1 = (Return (None, Some errSkip), nd2) \<and>
           unconsumed (fromIter nd2) = fs \<and> unconsumed (toIter nd2) = t # ts \<and>
           lastCmp nd2 = unknown \<and> fromChild nd2 = fromChild nd"
  using assms by (simp add: nextFromRow_compare popFrom_Cons nextToRow_consume rowCmp_defs)

lemma round_equal:
  assumes "unconsumed (fromIter nd) = f # fs" and "unconsumed (toIter nd) = t # ts"
    and "lastCmp nd = unknown"
    and "rowCompare (SortFields (fromChild nd)) f t = Return (equal_cmp, None)"
  shows "\<exists>nd1 nd2. nextFromRow nd = (Return (f, None), nd1) \<and>
           nextToRow nd1 = (Return (t, None), nd2) \<and>
           unconsumed (fromIter nd2) = fs \<and> unconsumed (toIter nd2) = ts \<and>
           lastCmp nd2 = unknown \<and> fromChild nd2 = fromChild nd"
  using assms
  by (simp add: nextFromRow_compare popFrom_Cons nextToRow_consume popTo_Cons rowCmp_defs)

lemma round_greater:
  assumes "unconsumed (fromIter nd) = f # fs" and "unconsumed (toIter nd) = t # ts"
    and "lastCmp nd = unknown"
    and "rowCompare (SortFields (fromChild nd)) f t = Return (greater_cmp, None)"
  shows "\<exists>nd1 nd2. nextFromRow nd = (Return (None, Some errSkip), nd1) \<and>
           nextToRow nd1 = (Return (t, None), nd2) \<and>
           unconsumed (fromIter nd2) = f # fs \<and> unconsumed (toIter nd2) = ts \<and>
           lastCmp nd2 = unknown \<and> fromChild nd2 = fromChild nd"
  using assms
  by (simp add: nextFromRow_compare nextToRow_consume popTo_Cons rowCmp_defs)

lemma sortQueryDiffer_sel [simp]:
  "Next (qd_fromIter (sortQueryDiffer eq nd0)) = nextFromRow"
  "Next (qd_toIter (sortQueryDiffer eq nd0)) = nextToRow"
  "sch (sortQueryDiffer eq nd0) = eq"
  by (simp_all add: sortQueryDiffer_def makeFromNode_def makeToNode_def)

lemma intRow_compare:
  "rowCompare (SortFields intSort) (intRow k v) (intRow k' v') =
     Return (if k < k' then lesser else if k = k' then equal_cmp else greater_cmp, None)"
  by (simp add: example_defs rowCompare_def rowCmp_defs rowCmp_of_int_def)

lemma intRow_key_le: "key_le (SortFields intSort) (intRow k v) (intRow k' v') \<longleftrightarrow> k \<le> k'"
  by (auto simp: key_le_def intRow_compare rowCmp_defs)

lemma intDiffer_sel:
  "unconsumed (fromIter (intDiffer fs ts)) = fs"
  "unconsumed (toIter (intDiffer fs ts)) = ts"
  "lastCmp (intDiffer fs ts) = unknown"
  "fromChild (intDiffer fs ts) = intSort"
  by (simp_all add: intDiffer_def newSortNodeDiffer_def newIterQueue_def)

subsection \<open>The run over two ordered streams\<close>

lemma pullAll_round:
  assumes "nextFromRow nd = (Return (fr, ferr), nd1)" and "nextToRow nd1 = (Return (tr, terr), nd2)"
    and "ferr = None \<or> ferr = Some io_EOF \<or> ferr = Some errSkip"
    and "terr = None \<or> terr = Some io_EOF \<or> terr = Some errSkip"
    and "\<not> (ferr = Some io_EOF \<and> terr = Some io_EOF)"
  shows "pullAll nd =
           (pulled FromSide (fr, ferr) @ pulled ToSide (tr, terr) @ fst (pullAll nd2),
            snd (pullAll nd2))"
  using assms by (subst pullAll.simps) (auto split: prod.splits)

lemma pullAll_done:
  assumes "nextFromRow nd = (Return (fr, Some io_EOF), nd1)"
    and "nextToRow nd1 = (Return (tr, Some io_EOF), nd2)"
  shows "pullAll nd = ([], Return io_EOF)"
  using assms by (subst pullAll.simps) simp

lemma set_pulled_rows_split:
  "set (map snd ps) =
     set (map snd (filter (\<lambda>p. fst p = FromSide) ps)) \<union>
     set (map snd (filter (\<lambda>p. fst p = ToSide) ps))"
proof (induction ps)
  case Nil
  show ?case by simp
next
  case (Cons p ps)
  then show ?case by (cases "fst p") auto
qed

lemma set_pulled_rows:
  assumes "map snd (filter (\<lambda>p. fst p = FromSide) ps) = fs"
    and "map snd (filter (\<lambda>p. fst p = ToSide) ps) = ts"
  shows "set (map snd ps) = set fs \<union> set ts"
  using set_pulled_rows_split [of ps] assms by simp

lemma key_ordered_result:
  assumes "key_ordered sfs A" and "a \<in> set A" and "b \<in> set A"
  shows "rowCompare sfs a b = Return (lesser, None) \<or> rowCompare sfs a b = Return (equal_cmp, None) \<or>
         rowCompare sfs a b = Return (greater_cmp, None)"
  using assms unfolding key_ordered_def key_le_def by blast

lemma key_ordered_converse:
  assumes "key_ordered sfs A" and "a \<in> set A" and "b \<in> set A"
    and "rowCompare sfs a b \<noteq> Return (lesser, None)"
  shows "key_le sfs b a"
  using assms unfolding key_ordered_def by blast

lemma key_ordered_trans:
  assumes "key_ordered sfs A" and "a \<in> set A" and "b \<in> set A" and "c \<in> set A"
    and "key_le sfs a b" and "key_le sfs b c"
  shows "key_le sfs a c"
  using assms unfolding key_ordered_def by blast

lemma cmp_distinct: "equal_cmp \<noteq> lesser" "greater_cmp \<noteq> lesser"
  by (simp_all add: rowCmp_defs)

lemma pullAll_ordered:
  assumes ko: "key_ordered sfs A"
  shows "unconsumed (fromIter nd) = fs \<Longrightarrow> unconsumed (toIter nd) = ts \<Longrightarrow>
         lastCmp nd = unknown \<Longrightarrow> SortFields (fromChild nd) = sfs \<Longrightarrow>
         set fs \<subseteq> set A \<Longrightarrow> set ts \<subseteq> set A \<Longrightarrow>
         sorted_wrt (key_le sfs) fs \<Longrightarrow> sorted_wrt (key_le sfs) ts \<Longrightarrow>
         \<exists>ps. pullAll nd = (ps, Return io_EOF) \<and>
              map snd (filter (\<lambda>p. fst p = FromSide) ps) = fs \<and>
              map snd (filter (\<lambda>p. fst p = ToSide) ps) = ts \<and>
              sorted_wrt (key_le sfs) (map snd ps)"
proof (induction "length fs + length ts" arbitrary: nd fs ts rule: less_induct)
  case less
  note fq = less.prems(1) and tq = less.prems(2) and unk = less.prems(3) and sfs = less.prems(4)
  show ?case
  proof (cases fs)
    case Nil
    note fsNil = Nil
    show ?thesis
    proof (cases ts)
      case Nil
      with fsNil fq tq obtain nd1 nd2 where
        "nextFromRow nd = (Return (None, Some io_EOF), nd1)"
        "nextToRow nd1 = (Return (None, Some io_EOF), nd2)"
        using round_done [of nd] by auto
      then have "pullAll nd = ([], Return io_EOF)" by (rule pullAll_done)
      with fsNil Nil show ?thesis by simp
    next
      case (Cons t ts')
      with fsNil fq tq unk obtain nd1 nd2 where r:
        "nextFromRow nd = (Return (None, Some io_EOF), nd1)"
        "nextToRow nd1 = (Return (t, None), nd2)"
        "unconsumed (fromIter nd2) = []" "unconsumed (toIter nd2) = ts'"
        "lastCmp nd2 = unknown" "fromChild nd2 = fromChild nd"
        using round_to_only [of nd t ts'] by auto
      have "\<exists>ps. pullAll nd2 = (ps, Return io_EOF) \<and>
              map snd (filter (\<lambda>p. fst p = FromSide) ps) = [] \<and>
              map snd (filter (\<lambda>p. fst p = ToSide) ps) = ts' \<and>
              sorted_wrt (key_le sfs) (map snd ps)"
        using less.prems r fsNil Cons by (intro less.hyps) simp_all
      then obtain ps where ps: "pullAll nd2 = (ps, Return io_EOF)"
        "map snd (filter (\<lambda>p. fst p = FromSide) ps) = []"
        "map snd (filter (\<lambda>p. fst p = ToSide) ps) = ts'"
        "sorted_wrt (key_le sfs) (map snd ps)" by (elim exE conjE)
      have run: "pullAll nd = ((ToSide, t) # ps, Return io_EOF)"
        using pullAll_round [OF r(1) r(2)] ps(1) by (simp add: pulled_def)
      have "set (map snd ps) = set ts'" using set_pulled_rows [OF ps(2) ps(3)] by simp
      with less.prems(8) Cons have "\<forall>x \<in> set (map snd ps). key_le sfs t x" by simp
      with run ps fsNil Cons show ?thesis by simp
    qed
  next
    case (Cons f fs')
    note fsCons = Cons
    show ?thesis
    proof (cases ts)
      case Nil
      with fsCons fq tq unk obtain nd1 nd2 where r:
        "nextFromRow nd = (Return (f, None), nd1)"
        "nextToRow nd1 = (Return (None, Some io_EOF), nd2)"
        "unconsumed (fromIter nd2) = fs'" "unconsumed (toIter nd2) = []"
        "lastCmp nd2 = unknown" "fromChild nd2 = fromChild nd"
        using round_from_only [of nd f fs'] by auto
      have "\<exists>ps. pullAll nd2 = (ps, Return io_EOF) \<and>
              map snd (filter (\<lambda>p. fst p = FromSide) ps) = fs' \<and>
              map snd (filter (\<lambda>p. fst p = ToSide) ps) = [] \<and>
              sorted_wrt (key_le sfs) (map snd ps)"
        using less.prems r fsCons Nil by (intro less.hyps) simp_all
      then obtain ps where ps: "pullAll nd2 = (ps, Return io_EOF)"
        "map snd (filter (\<lambda>p. fst p = FromSide) ps) = fs'"
        "map snd (filter (\<lambda>p. fst p = ToSide) ps) = []"
        "sorted_wrt (key_le sfs) (map snd ps)" by (elim exE conjE)
      have run: "pullAll nd = ((FromSide, f) # ps, Return io_EOF)"
        using pullAll_round [OF r(1) r(2)] ps(1) by (simp add: pulled_def)
      have "set (map snd ps) = set fs'" using set_pulled_rows [OF ps(2) ps(3)] by simp
      with less.prems(7) fsCons have "\<forall>x \<in> set (map snd ps). key_le sfs f x" by simp
      with run ps fsCons Nil show ?thesis by simp
    next
      case (Cons t ts')
      have fA: "f \<in> set A" and tA: "t \<in> set A" and fs'A: "set fs' \<subseteq> set A" and ts'A: "set ts' \<subseteq> set A"
        using less.prems(5,6) fsCons Cons by auto
      have f_fs': "\<forall>x \<in> set fs'. key_le sfs f x" and t_ts': "\<forall>x \<in> set ts'. key_le sfs t x"
        using less.prems(7,8) fsCons Cons by auto
      have f_up: "\<forall>x \<in> set ts'. key_le sfs f x" if "key_le sfs f t"
        using that t_ts' key_ordered_trans [OF ko fA tA] ts'A by blast
      have t_up: "\<forall>x \<in> set fs'. key_le sfs t x" if "key_le sfs t f"
        using that f_fs' key_ordered_trans [OF ko tA fA] fs'A by blast
      consider (lt) "rowCompare sfs f t = Return (lesser, None)"
        | (eq) "rowCompare sfs f t = Return (equal_cmp, None)"
        | (gt) "rowCompare sfs f t = Return (greater_cmp, None)"
        using key_ordered_result [OF ko fA tA] by blast
      then show ?thesis
      proof cases
        case lt
        with fsCons Cons fq tq unk sfs obtain nd1 nd2 where r:
          "nextFromRow nd = (Return (f, None), nd1)"
          "nextToRow nd1 = (Return (None, Some errSkip), nd2)"
          "unconsumed (fromIter nd2) = fs'" "unconsumed (toIter nd2) = t # ts'"
          "lastCmp nd2 = unknown" "fromChild nd2 = fromChild nd"
          using round_lesser [of nd f fs' t ts'] by auto
        have "\<exists>ps. pullAll nd2 = (ps, Return io_EOF) \<and>
              map snd (filter (\<lambda>p. fst p = FromSide) ps) = fs' \<and>
              map snd (filter (\<lambda>p. fst p = ToSide) ps) = t # ts' \<and>
              sorted_wrt (key_le sfs) (map snd ps)"
          using less.prems r fsCons Cons by (intro less.hyps) simp_all
        then obtain ps where ps: "pullAll nd2 = (ps, Return io_EOF)"
          "map snd (filter (\<lambda>p. fst p = FromSide) ps) = fs'"
          "map snd (filter (\<lambda>p. fst p = ToSide) ps) = t # ts'"
          "sorted_wrt (key_le sfs) (map snd ps)" by (elim exE conjE)
        have run: "pullAll nd = ((FromSide, f) # ps, Return io_EOF)"
          using pullAll_round [OF r(1) r(2)] ps(1) by (simp add: pulled_def)
        have ft: "key_le sfs f t" using lt by (simp add: key_le_def)
        have "set (map snd ps) = set fs' \<union> set (t # ts')"
          using set_pulled_rows [OF ps(2) ps(3)] .
        with f_fs' f_up [OF ft] ft have "\<forall>x \<in> set (map snd ps). key_le sfs f x" by auto
        with run ps fsCons Cons show ?thesis by simp
      next
        case eq
        with fsCons Cons fq tq unk sfs obtain nd1 nd2 where r:
          "nextFromRow nd = (Return (f, None), nd1)"
          "nextToRow nd1 = (Return (t, None), nd2)"
          "unconsumed (fromIter nd2) = fs'" "unconsumed (toIter nd2) = ts'"
          "lastCmp nd2 = unknown" "fromChild nd2 = fromChild nd"
          using round_equal [of nd f fs' t ts'] by auto
        have "\<exists>ps. pullAll nd2 = (ps, Return io_EOF) \<and>
              map snd (filter (\<lambda>p. fst p = FromSide) ps) = fs' \<and>
              map snd (filter (\<lambda>p. fst p = ToSide) ps) = ts' \<and>
              sorted_wrt (key_le sfs) (map snd ps)"
          using less.prems r fsCons Cons by (intro less.hyps) simp_all
        then obtain ps where ps: "pullAll nd2 = (ps, Return io_EOF)"
          "map snd (filter (\<lambda>p. fst p = FromSide) ps) = fs'"
          "map snd (filter (\<lambda>p. fst p = ToSide) ps) = ts'"
          "sorted_wrt (key_le sfs) (map snd ps)" by (elim exE conjE)
        have run: "pullAll nd = ((FromSide, f) # (ToSide, t) # ps, Return io_EOF)"
          using pullAll_round [OF r(1) r(2)] ps(1) by (simp add: pulled_def)
        have ft: "key_le sfs f t" using eq by (simp add: key_le_def)
        have tf: "key_le sfs t f"
          using key_ordered_converse [OF ko fA tA] eq by (simp add: cmp_distinct)
        have "set (map snd ps) = set fs' \<union> set ts'"
          using set_pulled_rows [OF ps(2) ps(3)] .
        with f_fs' f_up [OF ft] t_ts' t_up [OF tf]
        have "\<forall>x \<in> set (map snd ps). key_le sfs f x" "\<forall>x \<in> set (map snd ps). key_le sfs t x"
          by auto
        with run ps fsCons Cons ft show ?thesis by simp
      next
        case gt
        with fsCons Cons fq tq unk sfs obtain nd1 nd2 where r:
          "nextFromRow nd = (Return (None, Some errSkip), nd1)"
          "nextToRow nd1 = (Return (t, None), nd2)"
          "unconsumed (fromIter nd2) = f # fs'" "unconsumed (toIter nd2) = ts'"
          "lastCmp nd2 = unknown" "fromChild nd2 = fromChild nd"
          using round_greater [of nd f fs' t ts'] by auto
        have "\<exists>ps. pullAll nd2 = (ps, Return io_EOF) \<and>
              map snd (filter (\<lambda>p. fst p = FromSide) ps) = f # fs' \<and>
              map snd (filter (\<lambda>p. fst p = ToSide) ps) = ts' \<and>
              sorted_wrt (key_le sfs) (map snd ps)"
          using less.prems r fsCons Cons by (intro less.hyps) simp_all
        then obtain ps where ps: "pullAll nd2 = (ps, Return io_EOF)"
          "map snd (filter (\<lambda>p. fst p = FromSide) ps) = f # fs'"
          "map snd (filter (\<lambda>p. fst p = ToSide) ps) = ts'"
          "sorted_wrt (key_le sfs) (map snd ps)" by (elim exE conjE)
        have run: "pullAll nd = ((ToSide, t) # ps, Return io_EOF)"
          using pullAll_round [OF r(1) r(2)] ps(1) by (simp add: pulled_def)
        have tf: "key_le sfs t f"
          using key_ordered_converse [OF ko fA tA] gt by (simp add: cmp_distinct)
        have "set (map snd ps) = set (f # fs') \<union> set ts'"
          using set_pulled_rows [OF ps(2) ps(3)] .
        with t_ts' t_up [OF tf] tf have "\<forall>x \<in> set (map snd ps). key_le sfs t x" by auto
        with run ps fsCons Cons show ?thesis by simp
      qed
    qed
  qed
qed

lemma pullAll_key_ordered:
  assumes "unconsumed (fromIter nd) = fs" and "unconsumed (toIter nd) = ts"
    and "lastCmp nd = unknown"
    and "key_ordered (SortFields (fromChild nd)) (fs @ ts)"
    and "sorted_wrt (key_le (SortFields (fromChild nd))) fs"
    and "sorted_wrt (key_le (SortFields (fromChild nd))) ts"
  shows "\<exists>ps. pullAll nd = (ps, Return io_EOF) \<and>
           map snd (filter (\<lambda>p. fst p = FromSide) ps) = fs \<and>
           map snd (filter (\<lambda>p. fst p = ToSide) ps) = ts \<and>
           sorted_wrt (key_le (SortFields (fromChild nd))) (map snd ps)"
  using pullAll_ordered [OF assms(4) assms(1,2,3) refl _ _ assms(5,6)] by simp

subsection \<open>The key comparison is an order\<close>

lemma three_way_cmpi:
  assumes "three_way sf vs" and "a \<in> set vs" and "b \<in> set vs"
  shows "Column_Type_Compare sf a b = Inr (cmpi sf a b)"
    and "cmpi sf a b = - 1 \<or> cmpi sf a b = 0 \<or> cmpi sf a b = 1"
    and "cmpi sf b a = - cmpi sf a b"
proof -
  from assms have r: "Column_Type_Compare sf a b = Inr (- 1) \<or> Column_Type_Compare sf a b = Inr 0 \<or>
         Column_Type_Compare sf a b = Inr 1"
    and r': "Column_Type_Compare sf b a = Inr (- 1) \<or> Column_Type_Compare sf b a = Inr 0 \<or>
         Column_Type_Compare sf b a = Inr 1"
    and s: "(Column_Type_Compare sf a b = Inr 1) = (Column_Type_Compare sf b a = Inr (- 1))"
    and s': "(Column_Type_Compare sf b a = Inr 1) = (Column_Type_Compare sf a b = Inr (- 1))"
    unfolding three_way_def by blast+
  from r show "Column_Type_Compare sf a b = Inr (cmpi sf a b)" by (auto simp: cmpi_def)
  from r show "cmpi sf a b = - 1 \<or> cmpi sf a b = 0 \<or> cmpi sf a b = 1" by (auto simp: cmpi_def)
  from r r' s s' show "cmpi sf b a = - cmpi sf a b" by (auto simp: cmpi_def)
qed

lemma three_way_trans:
  assumes "three_way sf vs" and "a \<in> set vs" and "b \<in> set vs" and "c \<in> set vs"
    and "cmpi sf a b \<le> 0" and "cmpi sf b c \<le> 0"
  shows "cmpi sf a c \<le> 0"
proof -
  have ab: "Column_Type_Compare sf a b \<noteq> Inr 1" and bc: "Column_Type_Compare sf b c \<noteq> Inr 1"
    using assms three_way_cmpi(1) [OF assms(1)] by auto
  from assms(1-4) ab bc have "Column_Type_Compare sf a c \<noteq> Inr 1"
    unfolding three_way_def by blast
  then show ?thesis
    using three_way_cmpi(1,2) [OF assms(1,2,4)] by auto
qed

lemma three_way_strict:
  assumes "three_way sf vs" and "a \<in> set vs" and "b \<in> set vs" and "c \<in> set vs"
    and "cmpi sf a b \<le> 0" and "cmpi sf b c \<le> 0" and "cmpi sf a b < 0 \<or> cmpi sf b c < 0"
  shows "cmpi sf a c < 0"
proof (rule ccontr)
  assume "\<not> cmpi sf a c < 0"
  then have ca: "cmpi sf c a \<le> 0" using three_way_cmpi(3) [OF assms(1,2,4)] by simp
  from assms(7) show False
  proof
    assume "cmpi sf a b < 0"
    moreover have "cmpi sf b a \<le> 0" using three_way_trans [OF assms(1,3,4,2) assms(6) ca] .
    ultimately show False using three_way_cmpi(3) [OF assms(1,2,3)] by simp
  next
    assume "cmpi sf b c < 0"
    moreover have "cmpi sf c b \<le> 0" using three_way_trans [OF assms(1,4,2,3) ca assms(5)] .
    ultimately show False using three_way_cmpi(3) [OF assms(1,3,4)] by simp
  qed
qed


lemma ocmp_simps [simp]:
  "ocmp sf None None = 0"
  "ocmp sf None (Some b) = (if NullOrdering sf = NullsFirst then - 1 else 1)"
  "ocmp sf (Some a) None = (if NullOrdering sf = NullsFirst then 1 else - 1)"
  "ocmp sf (Some a) (Some b) = cmpi sf a b"
  by (simp_all add: ocmp_def)

lemma known_simps [simp]: "known vs None" "known vs (Some a) = (a \<in> set vs)"
  by (simp_all add: known_def)

lemma ocmp_range:
  assumes "three_way sf vs" and "known vs x" and "known vs y"
  shows "ocmp sf x y = - 1 \<or> ocmp sf x y = 0 \<or> ocmp sf x y = 1"
proof (cases x; cases y)
  fix a b assume "x = Some a" "y = Some b"
  with assms three_way_cmpi(2) [OF assms(1), of a b] show ?thesis by simp
qed simp_all

lemma ocmp_sym:
  assumes "three_way sf vs" and "known vs x" and "known vs y"
  shows "ocmp sf y x = - ocmp sf x y"
proof (cases x; cases y)
  fix a b assume "x = Some a" "y = Some b"
  with assms three_way_cmpi(3) [OF assms(1), of a b] show ?thesis by simp
qed simp_all

lemma ocmp_trans:
  assumes "three_way sf vs" and "known vs x" and "known vs y" and "known vs z"
    and "ocmp sf x y \<le> 0" and "ocmp sf y z \<le> 0"
  shows "ocmp sf x z \<le> 0"
proof (cases x; cases y; cases z)
  fix a b c assume "x = Some a" "y = Some b" "z = Some c"
  with assms three_way_trans [OF assms(1), of a b c] show ?thesis by simp
qed (insert assms(5,6), simp_all split: if_splits)

lemma ocmp_strict:
  assumes "three_way sf vs" and "known vs x" and "known vs y" and "known vs z"
    and "ocmp sf x y \<le> 0" and "ocmp sf y z \<le> 0" and "ocmp sf x y < 0 \<or> ocmp sf y z < 0"
  shows "ocmp sf x z < 0"
proof (cases x; cases y; cases z)
  fix a b c assume "x = Some a" "y = Some b" "z = Some c"
  with assms three_way_strict [OF assms(1), of a b c] show ?thesis by simp
qed (insert assms(5,6,7), simp_all split: if_splits)


lemma field_ok_ev:
  assumes "field_ok sf rows" and "l \<in> set rows"
  shows "Column_Eval sf l = Inr (ev sf l)" and "known (column_values sf rows) (ev sf l)"
proof -
  from assms have "case Column_Eval sf l of Inr v \<Rightarrow> True | Inl err \<Rightarrow> False"
    unfolding field_ok_def by blast
  then obtain v where v: "Column_Eval sf l = Inr v" by (cases "Column_Eval sf l") simp_all
  then show "Column_Eval sf l = Inr (ev sf l)" by (simp add: ev_def)
  from v assms(2) show "known (column_values sf rows) (ev sf l)"
    by (cases v) (force simp: ev_def column_values_def)+
qed

lemma field_cmp_ocmp:
  "field_cmp sf l r =
     (if Order sf = Descending then ocmp sf (ev sf r) (ev sf l) else ocmp sf (ev sf l) (ev sf r))"
  by (simp add: field_cmp_def)

lemma field_cmp_range:
  assumes "field_ok sf rows" and "l \<in> set rows" and "r \<in> set rows"
  shows "field_cmp sf l r = - 1 \<or> field_cmp sf l r = 0 \<or> field_cmp sf l r = 1"
proof -
  have tw: "three_way sf (column_values sf rows)" using assms(1) by (simp add: field_ok_def)
  show ?thesis
    using ocmp_range [OF tw field_ok_ev(2) [OF assms(1,2)] field_ok_ev(2) [OF assms(1,3)]]
      ocmp_range [OF tw field_ok_ev(2) [OF assms(1,3)] field_ok_ev(2) [OF assms(1,2)]]
    by (simp add: field_cmp_ocmp)
qed

lemma field_cmp_sym:
  assumes "field_ok sf rows" and "l \<in> set rows" and "r \<in> set rows"
  shows "field_cmp sf r l = - field_cmp sf l r"
proof -
  have tw: "three_way sf (column_values sf rows)" using assms(1) by (simp add: field_ok_def)
  show ?thesis
    using ocmp_sym [OF tw field_ok_ev(2) [OF assms(1,2)] field_ok_ev(2) [OF assms(1,3)]]
    by (simp add: field_cmp_ocmp)
qed

lemma field_cmp_trans:
  assumes "field_ok sf rows" and "l \<in> set rows" and "r \<in> set rows" and "s \<in> set rows"
    and "field_cmp sf l r \<le> 0" and "field_cmp sf r s \<le> 0"
  shows "field_cmp sf l s \<le> 0"
proof -
  have tw: "three_way sf (column_values sf rows)" using assms(1) by (simp add: field_ok_def)
  note k = field_ok_ev(2) [OF assms(1,2)] field_ok_ev(2) [OF assms(1,3)] field_ok_ev(2) [OF assms(1,4)]
  show ?thesis
    using assms(5,6) ocmp_trans [OF tw k(1) k(2) k(3)] ocmp_trans [OF tw k(3) k(2) k(1)]
    by (simp add: field_cmp_ocmp split: if_splits)
qed

lemma field_cmp_strict:
  assumes "field_ok sf rows" and "l \<in> set rows" and "r \<in> set rows" and "s \<in> set rows"
    and "field_cmp sf l r \<le> 0" and "field_cmp sf r s \<le> 0"
    and "field_cmp sf l r < 0 \<or> field_cmp sf r s < 0"
  shows "field_cmp sf l s < 0"
proof -
  have tw: "three_way sf (column_values sf rows)" using assms(1) by (simp add: field_ok_def)
  note k = field_ok_ev(2) [OF assms(1,2)] field_ok_ev(2) [OF assms(1,3)] field_ok_ev(2) [OF assms(1,4)]
  show ?thesis
    using assms(5,6,7) ocmp_strict [OF tw k(1) k(2) k(3)] ocmp_strict [OF tw k(3) k(2) k(1)]
    by (simp add: field_cmp_ocmp split: if_splits) blast+
qed

lemma rowCompare_fields_step:
  assumes "field_ok sf rows" and "l \<in> set rows" and "r \<in> set rows"
  shows "rowCompare_fields (sf # sfs) l r =
           (if field_cmp sf l r = 0 then rowCompare_fields sfs l r
            else (rowCmp_of_int (field_cmp sf l r), None))"
proof -
  have tw: "three_way sf (column_values sf rows)" using assms(1) by (simp add: field_ok_def)
  note e = field_ok_ev(1) [OF assms(1,2)] field_ok_ev(1) [OF assms(1,3)]
  note k = field_ok_ev(2) [OF assms(1,2)] field_ok_ev(2) [OF assms(1,3)]
  show ?thesis
  proof (cases "ev sf l"; cases "ev sf r")
    fix a b assume ab: "ev sf l = Some a" "ev sf r = Some b"
    with k have "a \<in> set (column_values sf rows)" "b \<in> set (column_values sf rows)" by simp_all
    from three_way_cmpi(1) [OF tw this] three_way_cmpi(1) [OF tw this(2,1)] e ab
    show ?thesis by (auto simp: field_cmp_def cmpi_def split: sum.splits)
  qed (insert e, simp_all add: field_cmp_def rowCmp_defs rowCmp_of_int_def)
qed

lemma rowCompare_fields_lex:
  assumes "\<forall>sf \<in> set sfs. field_ok sf rows" and "l \<in> set rows" and "r \<in> set rows"
  shows "rowCompare_fields sfs l r = (rowCmp_of_int (lex_cmp sfs l r), None)"
  using assms(1)
proof (induction sfs)
  case Nil
  show ?case by (simp add: rowCmp_of_int_def)
next
  case (Cons sf sfs)
  then have ok: "field_ok sf rows" and rest: "\<forall>sf \<in> set sfs. field_ok sf rows" by simp_all
  show ?case
    by (simp add: rowCompare_fields_step [OF ok assms(2,3)] Cons.IH [OF rest]
        del: rowCompare_fields.simps)
qed

lemma lex_cmp_range:
  assumes "\<forall>sf \<in> set sfs. field_ok sf rows" and "l \<in> set rows" and "r \<in> set rows"
  shows "lex_cmp sfs l r = - 1 \<or> lex_cmp sfs l r = 0 \<or> lex_cmp sfs l r = 1"
  using assms(1)
proof (induction sfs)
  case Nil
  show ?case by simp
next
  case (Cons sf sfs)
  then have ok: "field_ok sf rows" and rest: "\<forall>sf \<in> set sfs. field_ok sf rows" by simp_all
  show ?case
    using field_cmp_range [OF ok assms(2,3)] Cons.IH [OF rest] by auto
qed

lemma lex_cmp_sym:
  assumes "\<forall>sf \<in> set sfs. field_ok sf rows" and "l \<in> set rows" and "r \<in> set rows"
  shows "lex_cmp sfs r l = - lex_cmp sfs l r"
  using assms(1)
proof (induction sfs)
  case Nil
  show ?case by simp
next
  case (Cons sf sfs)
  then have ok: "field_ok sf rows" and rest: "\<forall>sf \<in> set sfs. field_ok sf rows" by simp_all
  show ?case
    using field_cmp_sym [OF ok assms(2,3)] Cons.IH [OF rest] by simp
qed

lemma lex_cmp_trans:
  assumes "\<forall>sf \<in> set sfs. field_ok sf rows"
    and "l \<in> set rows" and "r \<in> set rows" and "s \<in> set rows"
  shows "lex_cmp sfs l r \<le> 0 \<Longrightarrow> lex_cmp sfs r s \<le> 0 \<Longrightarrow>
         lex_cmp sfs l s \<le> 0 \<and> (lex_cmp sfs l r < 0 \<or> lex_cmp sfs r s < 0 \<longrightarrow> lex_cmp sfs l s < 0)"
  using assms(1)
proof (induction sfs)
  case Nil
  then show ?case by simp
next
  case (Cons sf sfs)
  from Cons.prems(3) have ok: "field_ok sf rows" and rest: "\<forall>sf \<in> set sfs. field_ok sf rows"
    by simp_all
  let ?a = "field_cmp sf l r" and ?b = "field_cmp sf r s" and ?c = "field_cmp sf l s"
  from Cons.prems(1) have a: "?a \<le> 0" by (simp split: if_splits)
  from Cons.prems(2) have b: "?b \<le> 0" by (simp split: if_splits)
  have c: "?c \<le> 0" using field_cmp_trans [OF ok assms(2,3,4) a b] .
  show ?case
  proof (cases "?a < 0 \<or> ?b < 0")
    case True
    then have "?c < 0" using field_cmp_strict [OF ok assms(2,3,4) a b] by simp
    then show ?thesis by simp
  next
    case False
    with a b have ab: "?a = 0" "?b = 0" by simp_all
    have "field_cmp sf s r \<le> 0" "field_cmp sf r l \<le> 0"
      using ab field_cmp_sym [OF ok assms(2,3)] field_cmp_sym [OF ok assms(3,4)] by simp_all
    then have "field_cmp sf s l \<le> 0" by (rule field_cmp_trans [OF ok assms(4,3,2)])
    with c have "?c = 0" using field_cmp_sym [OF ok assms(2,4)] by simp
    with ab Cons.prems(1,2) Cons.IH [OF _ _ rest] show ?thesis by simp
  qed
qed

lemma rowCmp_of_int_values:
  "rowCmp_of_int (- 1) = lesser" "rowCmp_of_int 0 = equal_cmp" "rowCmp_of_int 1 = greater_cmp"
  by (simp_all add: rowCmp_of_int_def rowCmp_defs)

lemma key_le_lex:
  assumes "\<forall>sf \<in> set sfs. field_ok sf rows" and "l \<in> set rows" and "r \<in> set rows"
  shows "key_le sfs (Some l) (Some r) \<longleftrightarrow> lex_cmp sfs l r \<le> 0"
  using lex_cmp_range [OF assms]
  by (auto simp: key_le_def rowCompare_def rowCompare_fields_lex [OF assms] rowCmp_of_int_values
      rowCmp_defs)

lemma orderable_key_ordered:
  assumes "orderable sfs rows"
  shows "key_ordered sfs (map Some rows)"
proof -
  have ok: "\<forall>sf \<in> set sfs. field_ok sf rows"
    using assms by (simp add: orderable_def)
  have cmp: "rowCompare sfs (Some a) (Some b) = Return (rowCmp_of_int (lex_cmp sfs a b), None)"
    if "a \<in> set rows" "b \<in> set rows" for a b
    by (simp add: rowCompare_def rowCompare_fields_lex [OF ok that])
  have 1: "key_le sfs x y \<or> rowCompare sfs x y = Return (greater_cmp, None)"
    if "x \<in> set (map Some rows)" "y \<in> set (map Some rows)" for x y
  proof -
    from that obtain a b where ab: "x = Some a" "a \<in> set rows" "y = Some b" "b \<in> set rows" by auto
    show ?thesis
      using lex_cmp_range [OF ok ab(2,4)]
      by (auto simp: ab key_le_def cmp [OF ab(2,4)] rowCmp_of_int_values)
  qed
  have 2: "rowCompare sfs x y = Return (lesser, None) \<or> key_le sfs y x"
    if "x \<in> set (map Some rows)" "y \<in> set (map Some rows)" for x y
  proof -
    from that obtain a b where ab: "x = Some a" "a \<in> set rows" "y = Some b" "b \<in> set rows" by auto
    show ?thesis
      using lex_cmp_range [OF ok ab(2,4)] lex_cmp_sym [OF ok ab(2,4)]
      by (auto simp: ab key_le_lex [OF ok ab(4,2)] cmp [OF ab(2,4)] rowCmp_of_int_values)
  qed
  have 3: "key_le sfs x z"
    if "x \<in> set (map Some rows)" "y \<in> set (map Some rows)" "z \<in> set (map Some rows)"
      "key_le sfs x y" "key_le sfs y z" for x y z
  proof -
    from that obtain a b c where abc: "x = Some a" "a \<in> set rows" "y = Some b" "b \<in> set rows"
      "z = Some c" "c \<in> set rows" by auto
    show ?thesis
      using that(4,5) lex_cmp_trans [OF ok abc(2,4,6)]
      by (simp add: abc key_le_lex [OF ok abc(2,4)] key_le_lex [OF ok abc(4,6)]
          key_le_lex [OF ok abc(2,6)])
  qed
  show ?thesis
    unfolding key_ordered_def
  proof (intro conjI ballI impI)
    fix a b assume "a \<in> set (map Some rows)" "b \<in> set (map Some rows)"
    then show "key_le sfs a b \<or> rowCompare sfs a b = Return (greater_cmp, None)" by (rule 1)
  next
    fix a b assume "a \<in> set (map Some rows)" "b \<in> set (map Some rows)"
    then show "rowCompare sfs a b = Return (lesser, None) \<or> key_le sfs b a" by (rule 2)
  next
    fix a b c assume "a \<in> set (map Some rows)" "b \<in> set (map Some rows)" "c \<in> set (map Some rows)"
      "key_le sfs a b" "key_le sfs b c"
    then show "key_le sfs a c" by (rule 3)
  qed
qed

lemma three_way_intColumn: "three_way (intColumn i ord nul) vs"
  by (auto simp: three_way_def intColumn_def)

lemma orderable_intSort: "orderable (SortFields intSort) (map (\<lambda>(k, v). [Some k, Some v]) kvs)"
  by (auto simp: orderable_def field_ok_def three_way_intColumn intSort_def)
     (simp add: intColumn_def)

subsection \<open>The merge of two ordered streams\<close>

text \<open>
  C2: for two finite streams of rows on which the engine orders by the sort fields (the
  fields evaluate without error and their comparators are three-way comparisons), each
  stream ordered by the sort key, the alternating calls of \<^verbatim>\<open>nextFromRow\<close> and
  \<^verbatim>\<open>nextToRow\<close> from the state \<^verbatim>\<open>unknown\<close> run to the double end of stream; the rows
  popped on the from-side are the from-stream and the rows popped on the to-side are the
  to-stream, each row once and in its order; and the rows are popped in ascending order
  of the key.
\<close>

theorem pullAll_merges_ordered_streams:
  assumes "unconsumed (fromIter nd) = map Some fs" and "unconsumed (toIter nd) = map Some ts"
    and "lastCmp nd = unknown"
    and "orderable (SortFields (fromChild nd)) (fs @ ts)"
    and "sorted_wrt (key_le (SortFields (fromChild nd))) (map Some fs)"
    and "sorted_wrt (key_le (SortFields (fromChild nd))) (map Some ts)"
  shows "\<exists>ps. pullAll nd = (ps, Return io_EOF) \<and>
           map snd (filter (\<lambda>p. fst p = FromSide) ps) = map Some fs \<and>
           map snd (filter (\<lambda>p. fst p = ToSide) ps) = map Some ts \<and>
           sorted_wrt (key_le (SortFields (fromChild nd))) (map snd ps)"
proof -
  have "key_ordered (SortFields (fromChild nd)) (map Some fs @ map Some ts)"
    using orderable_key_ordered [OF assms(4)] by simp
  then show ?thesis
    using assms(1,2,3,5,6) by (intro pullAll_key_ordered) simp_all
qed

theorem pullAll_merges_ordered_streams_witness:
  "pullAll (intDiffer exampleFrom exampleTo) =
     ([(FromSide, intRow 1 10), (ToSide, intRow 1 10), (FromSide, intRow 2 20),
       (ToSide, intRow 2 21), (FromSide, intRow 3 30), (ToSide, intRow 4 40)], Return io_EOF) \<and>
   sorted_wrt (key_le (SortFields intSort)) (map snd (fst (pullAll (intDiffer exampleFrom exampleTo))))"
proof -
  let ?fs = "[[Some 1, Some 10], [Some 2, Some 20], [Some 3, Some (30::int)]]"
  let ?ts = "[[Some 1, Some 10], [Some 2, Some 21], [Some 4, Some (40::int)]]"
  have run: "pullAll (intDiffer exampleFrom exampleTo) =
     ([(FromSide, intRow 1 10), (ToSide, intRow 1 10), (FromSide, intRow 2 20),
       (ToSide, intRow 2 21), (FromSide, intRow 3 30), (ToSide, intRow 4 40)], Return io_EOF)"
    by code_simp
  have streams: "exampleFrom = map Some ?fs" "exampleTo = map Some ?ts"
    by (simp_all add: exampleFrom_def exampleTo_def intRow_def)
  have ord: "orderable (SortFields intSort) (?fs @ ?ts)"
    using orderable_intSort [of "[(1, 10), (2, 20), (3, 30), (1, 10), (2, 21), (4, 40)]"] by simp
  have "sorted_wrt (key_le (SortFields intSort)) exampleFrom"
    and "sorted_wrt (key_le (SortFields intSort)) exampleTo"
    by (simp_all add: exampleFrom_def exampleTo_def intRow_key_le)
  then have "\<exists>ps. pullAll (intDiffer exampleFrom exampleTo) = (ps, Return io_EOF) \<and>
           map snd (filter (\<lambda>p. fst p = FromSide) ps) = map Some ?fs \<and>
           map snd (filter (\<lambda>p. fst p = ToSide) ps) = map Some ?ts \<and>
           sorted_wrt (key_le (SortFields (fromChild (intDiffer exampleFrom exampleTo)))) (map snd ps)"
    using ord streams
    by (intro pullAll_merges_ordered_streams) (simp_all add: intDiffer_sel)
  with run show ?thesis by (auto simp: intDiffer_sel)
qed

subsection \<open>NextDiff\<close>

lemma rowCompare_self:
  assumes "list_all (\<lambda>sf. ties sf row row) sfs"
  shows "rowCompare sfs (Some row) (Some row) = Return (equal_cmp, None)"
  using rowCompare_fields_ties [OF assms, of "[]"]
  by (simp add: rowCompare_def equal_cmp_def)

lemma NextDiff_loop_identical:
  assumes "\<forall>row \<in> set rows. list_all (\<lambda>sf. ties sf row row) sfs \<and>
             eq (Some row) (Some row) = Inr True"
  shows "unconsumed (fromIter nd) = map Some rows \<Longrightarrow> unconsumed (toIter nd) = map Some rows \<Longrightarrow>
         lastCmp nd = unknown \<Longrightarrow> SortFields (fromChild nd) = sfs \<Longrightarrow>
         \<exists>nd'. NextDiff_loop (sortQueryDiffer eq nd0) b nd =
                  Some (Return (None, None, Some io_EOF), nd') \<and>
               unconsumed (fromIter nd') = [] \<and> unconsumed (toIter nd') = [] \<and>
               lastCmp nd' = unknown \<and> fromChild nd' = fromChild nd"
  using assms
proof (induction rows arbitrary: nd b)
  case Nil
  then obtain nd1 nd2 where
    "nextFromRow nd = (Return (None, Some io_EOF), nd1)"
    "nextToRow nd1 = (Return (None, Some io_EOF), nd2)"
    "unconsumed (fromIter nd2) = []" "unconsumed (toIter nd2) = []"
    "lastCmp nd2 = lastCmp nd" "fromChild nd2 = fromChild nd"
    using round_done [of nd] by auto
  with Nil.prems(3) show ?case
    by (subst NextDiff_loop.simps) simp
next
  case (Cons row rows)
  from Cons.prems have self: "rowCompare (SortFields (fromChild nd)) (Some row) (Some row) =
      Return (equal_cmp, None)"
    and eq: "eq (Some row) (Some row) = Inr True"
    by (simp_all add: rowCompare_self)
  with Cons.prems obtain nd1 nd2 where r:
    "nextFromRow nd = (Return (Some row, None), nd1)"
    "nextToRow nd1 = (Return (Some row, None), nd2)"
    "unconsumed (fromIter nd2) = map Some rows" "unconsumed (toIter nd2) = map Some rows"
    "lastCmp nd2 = unknown" "fromChild nd2 = fromChild nd"
    using round_equal [of nd "Some row" "map Some rows" "Some row" "map Some rows"] by auto
  from Cons.prems r have "\<exists>nd'. NextDiff_loop (sortQueryDiffer eq nd0) b nd2 =
                  Some (Return (None, None, Some io_EOF), nd') \<and>
               unconsumed (fromIter nd') = [] \<and> unconsumed (toIter nd') = [] \<and>
               lastCmp nd' = unknown \<and> fromChild nd' = fromChild nd2"
    by (intro Cons.IH) simp_all
  with r eq show ?case
    by (subst NextDiff_loop.simps) simp
qed

text \<open>
  C3: for two identical streams of rows, each row comparing as equal with itself on the
  sort key and under the row equality of the schema, every one of \<open>n\<close> calls of
  \<^verbatim>\<open>NextDiff\<close> in a row returns the end of the stream and no pair: the first call pulls
  and discards every pair, the later ones find both sides exhausted.
\<close>

theorem NextDiff_identical_streams:
  assumes "unconsumed (fromIter nd) = map Some rows" and "unconsumed (toIter nd) = map Some rows"
    and "lastCmp nd = unknown"
    and "\<forall>row \<in> set rows. list_all (\<lambda>sf. ties sf row row) (SortFields (fromChild nd)) \<and>
           eq (Some row) (Some row) = Inr True"
  shows "\<exists>nd'. NextDiff_times n (sortQueryDiffer eq nd0) nd =
           Some (replicate n (Return (None, None, Some io_EOF)), nd')"
  using assms
proof (induction n arbitrary: nd rows)
  case 0
  show ?case by simp
next
  case (Suc n)
  obtain nd1 where nd1: "NextDiff (sortQueryDiffer eq nd0) nd = Some (Return (None, None, Some io_EOF), nd1)"
    "unconsumed (fromIter nd1) = []" "unconsumed (toIter nd1) = []" "lastCmp nd1 = unknown"
    "fromChild nd1 = fromChild nd"
    using NextDiff_loop_identical [of rows "SortFields (fromChild nd)" eq nd nd0 False] Suc.prems
    by (auto simp: NextDiff_def)
  have "\<exists>nd'. NextDiff_times n (sortQueryDiffer eq nd0) nd1 =
           Some (replicate n (Return (None, None, Some io_EOF)), nd')"
    using nd1 by (intro Suc.IH [of nd1 "[]"]) simp_all
  with nd1 show ?case by auto
qed

theorem NextDiff_identical_streams_witness:
  "map_option fst
     (NextDiff_times 2 (sortQueryDiffer intRowEquals (intDiffer exampleFrom exampleFrom))
        (intDiffer exampleFrom exampleFrom)) =
   Some [Return (None, None, Some io_EOF), Return (None, None, Some io_EOF)]"
proof -
  have "\<exists>nd'. NextDiff_times 2 (sortQueryDiffer intRowEquals (intDiffer exampleFrom exampleFrom))
        (intDiffer exampleFrom exampleFrom) =
           Some (replicate 2 (Return (None, None, Some io_EOF)), nd')"
    by (rule NextDiff_identical_streams [where rows = "[[Some 1, Some 10], [Some 2, Some 20], [Some 3, Some 30]]"])
       (simp_all add: intDiffer_sel exampleFrom_def intRow_def ties_def intSort_def intColumn_def
          intRowEquals_def)
  then show ?thesis by (auto simp: numeral_2_eq_2)
qed

text \<open>
  C6: when the first from-row compares as \<^verbatim>\<open>lesser\<close> with every to-row, and differs from
  the absent row under the row equality, \<^verbatim>\<open>NextDiff\<close> returns that from-row paired with
  the nil row. Only that row has been popped: the rest of the from-side and the whole
  to-side are still to come, and no comparison is stored.
\<close>

theorem NextDiff_extra_from_row:
  assumes "unconsumed (fromIter nd) = f # fs" and "unconsumed (toIter nd) = ts"
    and "lastCmp nd = unknown"
    and "\<forall>t \<in> set ts. rowCompare (SortFields (fromChild nd)) f t = Return (lesser, None)"
    and "eq f None = Inr False"
  shows "\<exists>nd'. NextDiff (sortQueryDiffer eq nd0) nd = Some (Return (f, None, None), nd') \<and>
           unconsumed (fromIter nd') = fs \<and> unconsumed (toIter nd') = ts \<and>
           lastCmp nd' = unknown"
proof (cases ts)
  case Nil
  with assms obtain nd1 nd2 where
    "nextFromRow nd = (Return (f, None), nd1)" "nextToRow nd1 = (Return (None, Some io_EOF), nd2)"
    "unconsumed (fromIter nd2) = fs" "unconsumed (toIter nd2) = []" "lastCmp nd2 = unknown"
    using round_from_only [of nd f fs] by auto
  with assms(5) Nil show ?thesis
    by (subst NextDiff_def, subst NextDiff_loop.simps) simp
next
  case (Cons t ts')
  with assms obtain nd1 nd2 where
    "nextFromRow nd = (Return (f, None), nd1)" "nextToRow nd1 = (Return (None, Some errSkip), nd2)"
    "unconsumed (fromIter nd2) = fs" "unconsumed (toIter nd2) = t # ts'" "lastCmp nd2 = unknown"
    using round_lesser [of nd f fs t ts'] by auto
  with assms(5) Cons show ?thesis
    by (subst NextDiff_def, subst NextDiff_loop.simps) simp
qed

theorem NextDiff_extra_from_row_witness:
  "map_option fst
     (NextDiff (sortQueryDiffer intRowEquals (intDiffer (intRow 0 5 # exampleFrom) exampleTo))
        (intDiffer (intRow 0 5 # exampleFrom) exampleTo)) =
   Some (Return (intRow 0 5, None, None))"
proof -
  have "\<exists>nd'. NextDiff (sortQueryDiffer intRowEquals (intDiffer (intRow 0 5 # exampleFrom) exampleTo))
        (intDiffer (intRow 0 5 # exampleFrom) exampleTo) = Some (Return (intRow 0 5, None, None), nd') \<and>
           unconsumed (fromIter nd') = exampleFrom \<and> unconsumed (toIter nd') = exampleTo \<and>
           lastCmp nd' = unknown"
    by (rule NextDiff_extra_from_row)
       (simp_all add: intDiffer_sel exampleTo_def intRow_compare intRowEquals_def, simp add: intRow_def)
  then show ?thesis by auto
qed

text \<open>
  The example of the specification: the changed pair, the removed row, the added row,
  then the end of the stream; the equal pair of key 1 is not reported.
\<close>

lemma NextDiff_times_numeral:
  "NextDiff_times (numeral k) qd s =
     (case NextDiff qd s of
        None \<Rightarrow> None
      | Some (out, s1) \<Rightarrow>
          (case NextDiff_times (pred_numeral k) qd s1 of
             None \<Rightarrow> None
           | Some (outs, s2) \<Rightarrow> Some (out # outs, s2)))"
  by (simp add: numeral_eq_Suc)

lemma NextDiff_example:
  "map_option fst
     (NextDiff_times 4 (sortQueryDiffer intRowEquals (intDiffer exampleFrom exampleTo))
        (intDiffer exampleFrom exampleTo)) =
   Some [Return (intRow 2 20, intRow 2 21, None), Return (intRow 3 30, None, None),
         Return (None, intRow 4 40, None), Return (None, None, Some io_EOF)]"
  by (simp add: NextDiff_times_numeral NextDiff_def NextDiff_loop.simps exampleFrom_def exampleTo_def
      example_defs differ_defs)

end
